theory Spec2Isabelle
  imports Main
begin

section \<open>Values that cross the HTTP boundary\<close>

text \<open>
  The request body is parsed JSON and the store returns rows, so a field read from either
  is an arbitrary JavaScript value. The handlers only test such a value with \<open>!v\<close>
  and pass it on, so the model keeps the value and its truthiness. \<open>JObject\<close> stands
  for any object or array (always truthy).
\<close>

datatype jsval = JUndefined | JNull | JBool bool | JNum int | JStr string | JObject

fun truthy :: "jsval \<Rightarrow> bool" where
  "truthy JUndefined = False"
| "truthy JNull = False"
| "truthy (JBool b) = b"
| "truthy (JNum n) = (n \<noteq> 0)"
| "truthy (JStr s) = (s \<noteq> [])"
| "truthy JObject = True"

text \<open>
  The object passed to \<open>emitter.emit("broadcast", ...)\<close> in \<open>POST /message/:channelId\<close>:
  \<open>{ channelId, id, username, content, created_at }\<close>.
\<close>

record message =
  m_channelId :: string
  m_id :: jsval
  m_username :: jsval
  m_content :: jsval
  m_created_at :: jsval

text \<open>
  The four arguments \<open>res.write\<close> is called with in \<open>GET /events/:channelId\<close>:
  \<^item> \<open>Init\<close>: \<^verbatim>\<open>"event: init\n\n"\<close>
  \<^item> \<open>Data d\<close>: \<^verbatim>\<open>`data: ${JSON.stringify(d)}\n\n`\<close>
  \<^item> \<open>Id_line n\<close>: \<^verbatim>\<open>`id: ${n}`\<close>
  \<^item> \<open>Comment\<close>: \<^verbatim>\<open>":\n\n"\<close>
\<close>

datatype chunk = Init | Data message | Id_line nat | Comment

fun chunk_payload :: "chunk \<Rightarrow> message option" where
  "chunk_payload (Data d) = Some d"
| "chunk_payload _ = None"

fun chunk_id :: "chunk \<Rightarrow> nat option" where
  "chunk_id (Id_line n) = Some n"
| "chunk_id _ = None"

section \<open>What a handler does to the outside: responses, store calls, broadcasts\<close>

datatype sql = INSERT_INTO_channels | DELETE_FROM_messages | DELETE_FROM_channels
  | INSERT_INTO_messages

datatype body = Msg string | Channel_row jsval jsval | Text string | Err_body | No_body
  | Event_stream

datatype error = ERR_HTTP_HEADERS_SENT | Store_rejected

text \<open>
  A handler run is the list of its outward actions in program order. \<open>Throws e\<close> is
  last when the handler ends with an exception nothing in the handler catches.
\<close>

datatype effect =
    Respond nat body
  | Query sql "jsval list"
  | Emit nat message
  | Throws error

fun is_Respond :: "effect \<Rightarrow> bool" where
  "is_Respond (Respond _ _) = True"
| "is_Respond _ = False"

fun is_Query :: "effect \<Rightarrow> bool" where
  "is_Query (Query _ _) = True"
| "is_Query _ = False"

fun is_Emit :: "effect \<Rightarrow> bool" where
  "is_Emit (Emit _ _) = True"
| "is_Emit _ = False"

definition headers_sent :: "effect list \<Rightarrow> bool" where
  "headers_sent t = (filter is_Respond t \<noteq> [])"

text \<open>
  \<open>res.status(code).json(b)\<close> and \<open>res.status(code).send(b)\<close>: the first one of a
  request writes the response; a later one throws, because the headers are out.
\<close>

definition send :: "nat \<Rightarrow> body \<Rightarrow> effect list \<Rightarrow> error + effect list" where
  "send code b t =
     (if headers_sent t then Inl ERR_HTTP_HEADERS_SENT else Inr (t @ [Respond code b]))"

text \<open>What the client gets, the store calls made and the broadcasts made in a run.\<close>

definition response :: "effect list \<Rightarrow> effect option" where
  "response t = (case filter is_Respond t of [] \<Rightarrow> None | r # _ \<Rightarrow> Some r)"

definition store_calls :: "effect list \<Rightarrow> effect list" where
  "store_calls t = filter is_Query t"

definition broadcasts :: "effect list \<Rightarrow> effect list" where
  "broadcasts t = filter is_Emit t"

text \<open>The promise \<open>pool.query\<close> returns either rejects or resolves to its rows.\<close>

datatype 'a answer = Rejected | Resolved 'a

section \<open>The registry, the emitters and the open streams\<close>

text \<open>
  \<open>eventEmitters\<close> is a \<open>Map<string, { emitter, messageCounter }>\<close>. An
  \<open>EventEmitter\<close> is an object, so the entry holds a reference to it: its index in
  \<open>emitter_objs\<close>. An emitter keeps, per event name, its listeners in the order they
  were added; a listener is named by the stream whose handler created it.
\<close>

record hub =
  emitter :: nat
  messageCounter :: nat

record emitter_obj =
  on_broadcast :: "nat list"
  on_close :: "nat list"

text \<open>
  One run of the streaming branch of \<open>GET /events/:channelId\<close>: its response object
  and the variables its callbacks close over (\<open>channelId\<close>, \<open>emitter\<close>,
  \<open>messageCounter\<close>, \<open>intervalId\<close>).
  \<open>written\<close> is every chunk given to \<open>res.write\<close>; \<open>received\<close> those written
  while the client was still connected. \<open>intervalId\<close> is the period in milliseconds
  of the running timer, or \<open>None\<close> once cleared.
\<close>

record conn =
  written :: "chunk list"
  received :: "chunk list"
  connected :: bool
  c_channelId :: string
  c_emitter :: nat
  c_messageCounter :: nat
  intervalId :: "nat option"

record state =
  eventEmitters :: "string \<Rightarrow> hub option"
  emitter_objs :: "emitter_obj list"
  conns :: "conn list"

definition init :: state where
  "init = \<lparr>eventEmitters = Map.empty, emitter_objs = [], conns = []\<rparr>"

section \<open>The streaming handler and its callbacks\<close>

text \<open>
  \<open>res.write(c)\<close> on stream \<open>r\<close>. Writing to a response whose client has gone does
  not throw: the chunk is dropped.
\<close>

definition res_write :: "nat \<Rightarrow> chunk \<Rightarrow> state \<Rightarrow> state" where
  "res_write r c s =
     (let cn = conns s ! r in
      s\<lparr>conns := (conns s)[r := cn\<lparr>written := written cn @ [c],
            received := (if connected cn then received cn @ [c] else received cn)\<rparr>]\<rparr>)"

text \<open>
  The listener of lines 163-169, for stream \<open>r\<close>:
  \<^verbatim>\<open>
  (data) => {
    res.write(`data: ${JSON.stringify(data)}\n\n`);
    res.write(`id: ${messageCounter}`);
    messageCounter += 1;
    eventEmitters.set(channelId, { emitter, messageCounter });
  }
  \<close>
\<close>

definition broadcast_listener :: "message \<Rightarrow> nat \<Rightarrow> state \<Rightarrow> state" where
  "broadcast_listener d r s =
     (let s1 = res_write r (Data d) s;
          s2 = res_write r (Id_line (c_messageCounter (conns s1 ! r))) s1;
          cn = conns s2 ! r;
          cn' = cn\<lparr>c_messageCounter := c_messageCounter cn + 1\<rparr>;
          s3 = s2\<lparr>conns := (conns s2)[r := cn']\<rparr>
      in s3\<lparr>eventEmitters := (eventEmitters s3)(c_channelId cn' \<mapsto>
            \<lparr>emitter = c_emitter cn', messageCounter = c_messageCounter cn'\<rparr>)\<rparr>)"

text \<open>
  \<open>emitter.emit("broadcast", d)\<close>: the listeners run one after the other, in the order
  they were added.
\<close>

definition emit_broadcast :: "nat \<Rightarrow> message \<Rightarrow> state \<Rightarrow> state" where
  "emit_broadcast e d s = fold (broadcast_listener d) (on_broadcast (emitter_objs s ! e)) s"

text \<open>The timer callback of lines 171-173: \<open>res.write(":\n\n")\<close>.\<close>

definition interval_callback :: "nat \<Rightarrow> state \<Rightarrow> state" where
  "interval_callback r s = res_write r Comment s"

text \<open>
  \<open>emitter.removeListener("broadcast", f)\<close> removes the most recently added listener
  that is the function object \<open>f\<close>. \<open>Some r\<close> is the listener stream \<open>r\<close> added;
  \<open>None\<close> is a function object that was never added, such as a function literal
  evaluated at the call.
\<close>

fun removeListener :: "nat option \<Rightarrow> nat list \<Rightarrow> nat list" where
  "removeListener None ls = ls"
| "removeListener (Some r) ls = rev (remove1 r (rev ls))"

text \<open>
  The listener of lines 175-178, for stream \<open>r\<close>:
  \<^verbatim>\<open>
  () => {
    clearInterval(intervalId);
    emitter.removeListener("broadcast", () => {});
  }
  \<close>
  The argument of \<open>removeListener\<close> is a new arrow function.
\<close>

definition close_listener :: "nat \<Rightarrow> state \<Rightarrow> state" where
  "close_listener r s =
     (let cn = conns s ! r;
          s1 = s\<lparr>conns := (conns s)[r := cn\<lparr>intervalId := None\<rparr>]\<rparr>;
          e = c_emitter cn;
          ob = emitter_objs s1 ! e
      in s1\<lparr>emitter_objs := (emitter_objs s1)[e := ob\<lparr>on_broadcast :=
            removeListener None (on_broadcast ob)\<rparr>]\<rparr>)"

text \<open>
  \<open>emitter.emit("close")\<close>. No line of the program calls it, and no line listens to
  the request's or the response's own \<open>close\<close> event.
\<close>

definition emit_close :: "nat \<Rightarrow> state \<Rightarrow> state" where
  "emit_close e s = fold close_listener (on_close (emitter_objs s ! e)) s"

text \<open>
  \<open>GET /events/:channelId\<close> (lines 132-182). A new request has a new response
  object: the next index of \<open>conns\<close>; \<open>new EventEmitter()\<close> is the next index of
  \<open>emitter_objs\<close>. After the 400 of line 138 the handler goes on, and
  \<open>res.writeHead\<close> throws.
\<close>

definition get_events :: "string option \<Rightarrow> string \<Rightarrow> state \<Rightarrow> effect list \<times> state" where
  "get_events accept channelId s =
     (if accept = Some ''text/event-stream'' then
        (if channelId = [] then
           ([Respond 400 (Msg ''Missing required argument channelId''),
             Throws ERR_HTTP_HEADERS_SENT], s)
         else
           let r = length (conns s);
               (e, n, s1) =
                 (case eventEmitters s channelId of
                    Some channelData \<Rightarrow> (emitter channelData, messageCounter channelData, s)
                  | None \<Rightarrow>
                      let e = length (emitter_objs s) in
                      (e, 1, s\<lparr>emitter_objs := emitter_objs s @
                                 [\<lparr>on_broadcast = [], on_close = []\<rparr>],
                               eventEmitters := (eventEmitters s)(channelId \<mapsto>
                                 \<lparr>emitter = e, messageCounter = 1\<rparr>)\<rparr>));
               cn = \<lparr>written = [Init], received = [Init], connected = True,
                     c_channelId = channelId, c_emitter = e, c_messageCounter = n,
                     intervalId = Some 10000\<rparr>;
               ob = emitter_objs s1 ! e
           in ([Respond 200 Event_stream],
               s1\<lparr>conns := conns s1 @ [cn],
                  emitter_objs := (emitter_objs s1)[e := ob\<lparr>
                    on_broadcast := on_broadcast ob @ [r],
                    on_close := on_close ob @ [r]\<rparr>]\<rparr>))
      else ([Respond 200 (Msg ''OK'')], s))"

section \<open>The other endpoints\<close>

text \<open>
  The \<open>catch\<close> block of \<open>POST /channel\<close> and \<open>DELETE /channel/:channelId\<close>:
  \<open>return res.status(500).send(err)\<close>. When the response is already out, this throws
  in turn, out of the handler.
\<close>

definition catch_500 :: "effect list \<Rightarrow> effect list" where
  "catch_500 t = (case send 500 Err_body t of Inr t' \<Rightarrow> t' | Inl e \<Rightarrow> t @ [Throws e])"

text \<open>\<open>POST /channel\<close> (lines 57-82). \<open>db\<close> is the store's answer: the new row's id.\<close>

definition post_channel :: "jsval \<Rightarrow> jsval answer \<Rightarrow> effect list" where
  "post_channel name db =
     (let t1 = (if \<not> truthy name
                then (case send 400 (Msg ''Missing required argument name'') [] of
                        Inr t \<Rightarrow> t | Inl e \<Rightarrow> [Throws e])
                else []);
          t2 = t1 @ [Query INSERT_INTO_channels [name]]
      in case db of
           Rejected \<Rightarrow> catch_500 t2
         | Resolved i \<Rightarrow>
             (case send 200 (Channel_row i name) t2 of
                Inr t3 \<Rightarrow> t3
              | Inl e \<Rightarrow> catch_500 t2))"

text \<open>
  \<open>DELETE /channel/:channelId\<close> (lines 103-130). \<open>q1\<close> and \<open>q2\<close> say whether the
  first and the second query resolve.
\<close>

definition delete_channel :: "string \<Rightarrow> bool \<Rightarrow> bool \<Rightarrow> state \<Rightarrow> effect list \<times> state" where
  "delete_channel channelId q1 q2 s =
     (if channelId \<noteq> [] then
        (let t1 = [Query DELETE_FROM_messages [JStr channelId]] in
         if \<not> q1 then (catch_500 t1, s)
         else
           let t2 = t1 @ [Query DELETE_FROM_channels [JStr channelId]] in
           if \<not> q2 then (catch_500 t2, s)
           else
             (case send 204 No_body t2 of
                Inr t3 \<Rightarrow> (t3, s\<lparr>eventEmitters := (eventEmitters s)(channelId := None)\<rparr>)
              | Inl e \<Rightarrow> (catch_500 t2, s\<lparr>eventEmitters := (eventEmitters s)(channelId := None)\<rparr>)))
      else
        (case send 204 No_body [] of Inr t \<Rightarrow> (t, s) | Inl e \<Rightarrow> (catch_500 [], s)))"

text \<open>
  \<open>POST /message/:channelId\<close> (lines 211-241). There is no \<open>try\<close>: a rejected query
  or a second response ends the handler with an exception. \<open>db\<close> is the store's answer:
  the new row's \<open>id\<close> and \<open>created_at\<close>.
\<close>

definition post_message ::
    "string \<Rightarrow> jsval \<Rightarrow> jsval \<Rightarrow> (jsval \<times> jsval) answer \<Rightarrow> state \<Rightarrow> effect list \<times> state" where
  "post_message channelId content username db s =
     (case (if channelId = [] \<or> \<not> truthy content \<or> \<not> truthy username
            then send 400 (Msg ''Missing required argument (channelId, content or username)'') []
            else Inr []) of
        Inl e \<Rightarrow> ([Throws e], s)
      | Inr t1 \<Rightarrow>
          let t2 = t1 @ [Query INSERT_INTO_messages [content, JStr channelId, username]] in
          (case db of
             Rejected \<Rightarrow> (t2 @ [Throws Store_rejected], s)
           | Resolved (i, created_at) \<Rightarrow>
               (case eventEmitters s channelId of
                  None \<Rightarrow>
                    (case send 404 (Text ''Channel not found'') t2 of
                       Inl e \<Rightarrow> (t2 @ [Throws e], s)
                     | Inr t3 \<Rightarrow>
                         (case send 201 (Msg ''Chat message posted'') t3 of
                            Inl e \<Rightarrow> (t3 @ [Throws e], s)
                          | Inr t4 \<Rightarrow> (t4, s)))
                | Some channelData \<Rightarrow>
                    let d = \<lparr>m_channelId = channelId, m_id = i, m_username = username,
                             m_content = content, m_created_at = created_at\<rparr>;
                        s' = emit_broadcast (emitter channelData) d s;
                        t3 = t2 @ [Emit (emitter channelData) d]
                    in (case send 201 (Msg ''Chat message posted'') t3 of
                          Inl e \<Rightarrow> (t3 @ [Throws e], s')
                        | Inr t4 \<Rightarrow> (t4, s')))))"

section \<open>Runs of the server\<close>

text \<open>
  The process is single-threaded, and in every handler the accesses to the registry come
  after the handler's last \<open>await\<close>, in one synchronous stretch. So a run is a sequence
  of events, each applied as a whole: requests with the store's answers, timer ticks, and
  clients going away. No handler is attached to a client going away, so the program
  runs no code then; the connection is merely gone.
\<close>

datatype event =
    Post_channel jsval "jsval answer"
  | Delete_channel string bool bool
  | Get_events "string option" string
  | Post_message string jsval jsval "(jsval \<times> jsval) answer"
  | Interval_fires nat
  | Client_disconnects nat

fun step :: "event \<Rightarrow> state \<Rightarrow> state" where
  "step (Post_channel name db) s = s"
| "step (Delete_channel channelId q1 q2) s = snd (delete_channel channelId q1 q2 s)"
| "step (Get_events accept channelId) s = snd (get_events accept channelId s)"
| "step (Post_message channelId content username db) s =
     snd (post_message channelId content username db s)"
| "step (Interval_fires r) s =
     (if r < length (conns s) \<and> intervalId (conns s ! r) \<noteq> None
      then interval_callback r s else s)"
| "step (Client_disconnects r) s =
     (if r < length (conns s)
      then s\<lparr>conns := (conns s)[r := (conns s ! r)\<lparr>connected := False\<rparr>]\<rparr>
      else s)"

fun run :: "event list \<Rightarrow> state \<Rightarrow> state" where
  "run [] s = s"
| "run (ev # evs) s = run evs (step ev s)"

section \<open>Notions the properties are stated with\<close>

text \<open>
  The net effect of one run of the broadcast listener on its own stream: the two
  chunks, then the closure's counter goes up by one.
\<close>

definition deliver :: "message \<Rightarrow> conn \<Rightarrow> conn" where
  "deliver d cn =
     cn\<lparr>written := written cn @ [Data d, Id_line (c_messageCounter cn)],
        received := (if connected cn
                     then received cn @ [Data d, Id_line (c_messageCounter cn)]
                     else received cn),
        c_messageCounter := c_messageCounter cn + 1\<rparr>"

text \<open>The subscriber set of a channel: the broadcast listeners of its hub's emitter.\<close>

definition subscribers :: "state \<Rightarrow> string \<Rightarrow> nat list" where
  "subscribers s c =
     (case eventEmitters s c of
        None \<Rightarrow> []
      | Some h \<Rightarrow> on_broadcast (emitter_objs s ! emitter h))"

text \<open>
  Events by what they do to one channel \<open>c\<close>: a stream opened on \<open>c\<close>, a deletion of
  \<open>c\<close> that reaches \<open>eventEmitters.delete\<close>, a post to \<open>c\<close> that reaches the
  broadcast step (with the payload it builds).
\<close>

fun subscribes :: "string \<Rightarrow> event \<Rightarrow> bool" where
  "subscribes c (Get_events accept c') =
     (accept = Some ''text/event-stream'' \<and> c' \<noteq> [] \<and> c' = c)"
| "subscribes c _ = False"

fun deletes :: "string \<Rightarrow> event \<Rightarrow> bool" where
  "deletes c (Delete_channel c' q1 q2) = (c' \<noteq> [] \<and> q1 \<and> q2 \<and> c' = c)"
| "deletes c _ = False"

fun posts :: "string \<Rightarrow> event \<Rightarrow> message option" where
  "posts c (Post_message c' content username (Resolved (i, created_at))) =
     (if c' = c
      then Some \<lparr>m_channelId = c', m_id = i, m_username = username, m_content = content,
                 m_created_at = created_at\<rparr>
      else None)"
| "posts c _ = None"

text \<open>
  The part of a history that concerns the present hub of \<open>c\<close>: the events after the
  last deletion of \<open>c\<close>, from the first subscribe among them on. The publishes on the
  hub are the posts in that part.
\<close>

definition since_deletion :: "string \<Rightarrow> event list \<Rightarrow> event list" where
  "since_deletion c evs = rev (takeWhile (\<lambda>ev. \<not> deletes c ev) (rev evs))"

definition hub_events :: "string \<Rightarrow> event list \<Rightarrow> event list" where
  "hub_events c evs = dropWhile (\<lambda>ev. \<not> subscribes c ev) (since_deletion c evs)"

definition published :: "string \<Rightarrow> event list \<Rightarrow> message list" where
  "published c evs = List.map_filter (posts c) evs"

text \<open>The chunks of publishes numbered from \<open>n\<close> on.\<close>

fun frames :: "nat \<Rightarrow> message list \<Rightarrow> chunk list" where
  "frames n [] = []"
| "frames n (d # ds) = Data d # Id_line n # frames (Suc n) ds"

text \<open>
  Consistency of the registry with the emitters and the closures: a registered emitter
  exists and has a listener, every listener of a registered emitter closes over the
  entry's channel and a counter equal to the stored one, and every listener of any
  emitter is an open stream that closes over that emitter, listed once.
\<close>

definition consistent :: "state \<Rightarrow> bool" where
  "consistent s =
     ((\<forall>c h. eventEmitters s c = Some h \<longrightarrow>
         emitter h < length (emitter_objs s) \<and>
         on_broadcast (emitter_objs s ! emitter h) \<noteq> [] \<and>
         (\<forall>r \<in> set (on_broadcast (emitter_objs s ! emitter h)).
            c_channelId (conns s ! r) = c \<and>
            c_messageCounter (conns s ! r) = messageCounter h)) \<and>
      (\<forall>e < length (emitter_objs s).
         distinct (on_broadcast (emitter_objs s ! e)) \<and>
         (\<forall>r \<in> set (on_broadcast (emitter_objs s ! e)).
            r < length (conns s) \<and> c_emitter (conns s ! r) = e)))"

text \<open>
  The stream record \<open>get_events\<close> appends, and the two \<open>emitter.on\<close> calls it makes,
  named so that the effect of the handler on the state can be written in one equation
  (\<open>get_events_state\<close> below).
\<close>

definition new_conn :: "string \<Rightarrow> nat \<Rightarrow> nat \<Rightarrow> conn" where
  "new_conn c e n = \<lparr>written = [Init], received = [Init], connected = True,
     c_channelId = c, c_emitter = e, c_messageCounter = n, intervalId = Some 10000\<rparr>"

definition add_listener :: "nat \<Rightarrow> emitter_obj \<Rightarrow> emitter_obj" where
  "add_listener r ob = ob\<lparr>on_broadcast := on_broadcast ob @ [r], on_close := on_close ob @ [r]\<rparr>"

text \<open>
  Two further facts of every reachable state: a connected client has received all that
  was written to it, and every stream's timer runs with the period it was created with.
\<close>

definition all_received :: "state \<Rightarrow> bool" where
  "all_received s =
     (\<forall>r < length (conns s). connected (conns s ! r) \<longrightarrow>
        received (conns s ! r) = written (conns s ! r))"

definition timers_running :: "state \<Rightarrow> bool" where
  "timers_running s = (\<forall>r < length (conns s). intervalId (conns s ! r) = Some 10000)"

text \<open>
  The store's side of a channel's life. The queries of \<open>DELETE /channel/:channelId\<close>
  compare the URL's \<open>channelId\<close> with the \<open>id\<close> column, so the channel whose row has id
  \<open>i\<close> is the one addressed as \<open>String(i)\<close>; \<open>POST /channel\<close> creates it when its
  insert resolves with that row.
\<close>

definition digit :: "nat \<Rightarrow> char" where
  "digit d = ''0123456789'' ! d"

fun decimal :: "nat \<Rightarrow> string" where
  "decimal n = (if n < 10 then [digit n] else decimal (n div 10) @ [digit (n mod 10)])"

declare decimal.simps [simp del]

fun js_String :: "jsval \<Rightarrow> string" where
  "js_String JUndefined = ''undefined''"
| "js_String JNull = ''null''"
| "js_String (JBool b) = (if b then ''true'' else ''false'')"
| "js_String (JNum n) = (if n < 0 then ''-'' @ decimal (nat (- n)) else decimal (nat n))"
| "js_String (JStr s) = s"
| "js_String JObject = ''[object Object]''"

fun creates :: "string \<Rightarrow> event \<Rightarrow> bool" where
  "creates c (Post_channel name (Resolved i)) = (js_String i = c)"
| "creates c _ = False"

text \<open>
  The spec's condition for a hub to exist, in its own words: at least one subscribe has
  occurred since the channel's creation (or its last removal), and no deletion since.
\<close>

definition since_creation :: "string \<Rightarrow> event list \<Rightarrow> event list" where
  "since_creation c evs =
     rev (takeWhile (\<lambda>ev. \<not> deletes c ev \<and> \<not> creates c ev) (rev evs))"

definition claimed_hub :: "string \<Rightarrow> event list \<Rightarrow> bool" where
  "claimed_hub c evs = list_ex (subscribes c) (since_creation c evs)"

section \<open>Basic facts\<close>

lemma run_append: "run (xs @ ys) s = run ys (run xs s)"
  by (induction xs arbitrary: s) simp_all

lemma broadcast_listener_eq:
  assumes "r < length (conns s)"
  shows "broadcast_listener d r s =
     s\<lparr>conns := (conns s)[r := deliver d (conns s ! r)],
       eventEmitters := (eventEmitters s)(c_channelId (conns s ! r) \<mapsto>
          \<lparr>emitter = c_emitter (conns s ! r),
           messageCounter = c_messageCounter (conns s ! r) + 1\<rparr>)\<rparr>"
  using assms by (simp add: broadcast_listener_def res_write_def deliver_def Let_def)

lemma fold_listener:
  assumes "distinct ls" and "\<forall>r \<in> set ls. r < length (conns s) \<and> c_channelId (conns s ! r) = c
      \<and> c_emitter (conns s ! r) = e \<and> c_messageCounter (conns s ! r) = n"
  shows "fold (broadcast_listener d) ls s =
     s\<lparr>conns := map (\<lambda>i. if i \<in> set ls then deliver d (conns s ! i) else conns s ! i)
                  [0 ..< length (conns s)],
       eventEmitters := (if ls = [] then eventEmitters s
                         else (eventEmitters s)(c \<mapsto> \<lparr>emitter = e, messageCounter = n + 1\<rparr>))\<rparr>"
  using assms
proof (induction ls arbitrary: s)
  case Nil
  then show ?case by (simp add: map_nth)
next
  case (Cons r ls)
  let ?s1 = "broadcast_listener d r s"
  have r: "r < length (conns s)" "c_channelId (conns s ! r) = c" "c_emitter (conns s ! r) = e"
    "c_messageCounter (conns s ! r) = n" "r \<notin> set ls" "distinct ls"
    using Cons.prems by auto
  have s1: "?s1 = s\<lparr>conns := (conns s)[r := deliver d (conns s ! r)],
       eventEmitters := (eventEmitters s)(c \<mapsto> \<lparr>emitter = e, messageCounter = n + 1\<rparr>)\<rparr>"
    using r by (simp add: broadcast_listener_eq)
  have pre: "\<forall>q \<in> set ls. q < length (conns ?s1) \<and> c_channelId (conns ?s1 ! q) = c
      \<and> c_emitter (conns ?s1 ! q) = e \<and> c_messageCounter (conns ?s1 ! q) = n"
    using Cons.prems r by (auto simp: s1 nth_list_update)
  have "fold (broadcast_listener d) (r # ls) s = fold (broadcast_listener d) ls ?s1" by simp
  also have "\<dots> = ?s1\<lparr>conns := map (\<lambda>i. if i \<in> set ls then deliver d (conns ?s1 ! i) else conns ?s1 ! i)
                  [0 ..< length (conns ?s1)],
       eventEmitters := (if ls = [] then eventEmitters ?s1
                         else (eventEmitters ?s1)(c \<mapsto> \<lparr>emitter = e, messageCounter = n + 1\<rparr>))\<rparr>"
    using Cons.IH[OF r(6) pre] .
  also have "\<dots> = s\<lparr>conns := map (\<lambda>i. if i \<in> set (r # ls) then deliver d (conns s ! i) else conns s ! i)
                  [0 ..< length (conns s)],
       eventEmitters := (if r # ls = [] then eventEmitters s
                         else (eventEmitters s)(c \<mapsto> \<lparr>emitter = e, messageCounter = n + 1\<rparr>))\<rparr>"
    using r by (auto simp: s1 nth_list_update intro!: nth_equalityI)
  finally show ?case .
qed

lemma consistentD:
  assumes "consistent s" "eventEmitters s c = Some h"
  shows "emitter h < length (emitter_objs s)"
    and "subscribers s c \<noteq> []"
    and "distinct (subscribers s c)"
    and "r \<in> set (subscribers s c) \<Longrightarrow> r < length (conns s) \<and> c_channelId (conns s ! r) = c \<and>
          c_emitter (conns s ! r) = emitter h \<and> c_messageCounter (conns s ! r) = messageCounter h"
proof -
  have a: "emitter h < length (emitter_objs s) \<and>
         on_broadcast (emitter_objs s ! emitter h) \<noteq> [] \<and>
         (\<forall>r \<in> set (on_broadcast (emitter_objs s ! emitter h)).
            c_channelId (conns s ! r) = c \<and>
            c_messageCounter (conns s ! r) = messageCounter h)"
    using assms unfolding consistent_def by blast
  have b: "distinct (on_broadcast (emitter_objs s ! emitter h)) \<and>
         (\<forall>r \<in> set (on_broadcast (emitter_objs s ! emitter h)).
            r < length (conns s) \<and> c_emitter (conns s ! r) = emitter h)"
    using assms(1) a unfolding consistent_def by blast
  have ls: "subscribers s c = on_broadcast (emitter_objs s ! emitter h)"
    using assms(2) by (simp add: subscribers_def)
  show "emitter h < length (emitter_objs s)" using a by simp
  show "subscribers s c \<noteq> []" using a ls by simp
  show "distinct (subscribers s c)" using b ls by simp
  show "r \<in> set (subscribers s c) \<Longrightarrow> r < length (conns s) \<and> c_channelId (conns s ! r) = c \<and>
          c_emitter (conns s ! r) = emitter h \<and> c_messageCounter (conns s ! r) = messageCounter h"
    using a b ls by simp
qed

lemma emit_broadcast_eq:
  assumes "consistent s" "eventEmitters s c = Some h"
  shows "emit_broadcast (emitter h) d s =
     s\<lparr>conns := map (\<lambda>i. if i \<in> set (subscribers s c) then deliver d (conns s ! i)
                         else conns s ! i) [0 ..< length (conns s)],
       eventEmitters := (eventEmitters s)(c \<mapsto>
          \<lparr>emitter = emitter h, messageCounter = messageCounter h + 1\<rparr>)\<rparr>"
proof -
  have ls: "on_broadcast (emitter_objs s ! emitter h) = subscribers s c"
    using assms(2) by (simp add: subscribers_def)
  have "fold (broadcast_listener d) (subscribers s c) s =
     s\<lparr>conns := map (\<lambda>i. if i \<in> set (subscribers s c) then deliver d (conns s ! i)
                         else conns s ! i) [0 ..< length (conns s)],
       eventEmitters := (if subscribers s c = [] then eventEmitters s
          else (eventEmitters s)(c \<mapsto> \<lparr>emitter = emitter h, messageCounter = messageCounter h + 1\<rparr>))\<rparr>"
    by (rule fold_listener) (use consistentD[OF assms] in auto)
  then show ?thesis
    using consistentD(2)[OF assms] by (simp add: emit_broadcast_def ls)
qed

lemma post_message_state:
  "snd (post_message c content username db s) =
     (case db of
        Rejected \<Rightarrow> s
      | Resolved (i, created_at) \<Rightarrow>
          (case eventEmitters s c of
             None \<Rightarrow> s
           | Some h \<Rightarrow> emit_broadcast (emitter h)
               \<lparr>m_channelId = c, m_id = i, m_username = username, m_content = content,
                m_created_at = created_at\<rparr> s))"
  by (simp add: post_message_def send_def headers_sent_def Let_def
      split: answer.splits option.splits sum.splits prod.splits)

lemma delete_channel_state:
  "snd (delete_channel c q1 q2 s) =
     (if c \<noteq> [] \<and> q1 \<and> q2 then s\<lparr>eventEmitters := (eventEmitters s)(c := None)\<rparr> else s)"
  by (simp add: delete_channel_def send_def headers_sent_def Let_def split: sum.splits)

lemma get_events_state:
  "snd (get_events accept c s) =
     (if accept = Some ''text/event-stream'' \<and> c \<noteq> [] then
        (case eventEmitters s c of
           Some h \<Rightarrow>
             s\<lparr>conns := conns s @ [new_conn c (emitter h) (messageCounter h)],
               emitter_objs := (emitter_objs s)[emitter h :=
                  add_listener (length (conns s)) (emitter_objs s ! emitter h)]\<rparr>
         | None \<Rightarrow>
             s\<lparr>conns := conns s @ [new_conn c (length (emitter_objs s)) 1],
               emitter_objs := emitter_objs s @
                  [\<lparr>on_broadcast = [length (conns s)], on_close = [length (conns s)]\<rparr>],
               eventEmitters := (eventEmitters s)(c \<mapsto>
                  \<lparr>emitter = length (emitter_objs s), messageCounter = 1\<rparr>)\<rparr>)
      else s)"
  by (simp add: get_events_def Let_def new_conn_def add_listener_def split: option.splits)

lemma consistent_init: "consistent init"
  by (simp add: consistent_def init_def)

lemma emitter_inj:
  assumes "consistent s" "eventEmitters s c = Some h" "eventEmitters s c' = Some h'"
    "emitter h = emitter h'"
  shows "c = c'"
proof -
  obtain r where r: "r \<in> set (subscribers s c)"
    using consistentD(2)[OF assms(1,2)] by (cases "subscribers s c") auto
  have "subscribers s c' = subscribers s c"
    using assms(2-4) by (simp add: subscribers_def)
  then have "r \<in> set (subscribers s c')" using r by simp
  then show ?thesis
    using consistentD(4)[OF assms(1,2) r] consistentD(4)[OF assms(1,3)] by simp
qed

lemma consistent_closure_cong:
  assumes "consistent s"
    and "eventEmitters s' = eventEmitters s" "emitter_objs s' = emitter_objs s"
    and "length (conns s') = length (conns s)"
    and "\<And>i. i < length (conns s) \<Longrightarrow>
           c_channelId (conns s' ! i) = c_channelId (conns s ! i) \<and>
           c_emitter (conns s' ! i) = c_emitter (conns s ! i) \<and>
           c_messageCounter (conns s' ! i) = c_messageCounter (conns s ! i)"
  shows "consistent s'"
  using assms unfolding consistent_def by (auto; metis)

lemma consistent_delete:
  assumes "consistent s"
  shows "consistent (s\<lparr>eventEmitters := (eventEmitters s)(c := None)\<rparr>)"
  using assms unfolding consistent_def by (auto split: if_splits)

lemma consistent_subscribe_new:
  assumes "consistent s" "eventEmitters s c = None"
  shows "consistent (s\<lparr>conns := conns s @ [new_conn c (length (emitter_objs s)) 1],
               emitter_objs := emitter_objs s @
                  [\<lparr>on_broadcast = [length (conns s)], on_close = [length (conns s)]\<rparr>],
               eventEmitters := (eventEmitters s)(c \<mapsto>
                  \<lparr>emitter = length (emitter_objs s), messageCounter = 1\<rparr>)\<rparr>)"
    (is "consistent ?s'")
  unfolding consistent_def
proof (intro conjI allI impI ballI)
  fix c' h' assume h': "eventEmitters ?s' c' = Some h'"
  show "emitter h' < length (emitter_objs ?s')"
    using h' consistentD(1)[OF assms(1), of c' h'] by (auto split: if_splits)
  have ls: "on_broadcast (emitter_objs ?s' ! emitter h') =
      (if c' = c then [length (conns s)] else subscribers s c')"
    using h' consistentD(1)[OF assms(1), of c' h']
    by (auto simp: nth_append subscribers_def split: if_splits)
  show "on_broadcast (emitter_objs ?s' ! emitter h') \<noteq> []"
    using ls h' consistentD(2)[OF assms(1), of c' h'] by (auto split: if_splits)
  fix r assume "r \<in> set (on_broadcast (emitter_objs ?s' ! emitter h'))"
  then have r: "(c' \<noteq> c \<and> r \<in> set (subscribers s c')) \<or> (c' = c \<and> r = length (conns s))"
    using ls by (auto split: if_splits)
  show "c_channelId (conns ?s' ! r) = c'"
    using r h' consistentD(4)[OF assms(1), of c' h' r] by (auto simp: nth_append new_conn_def)
  show "c_messageCounter (conns ?s' ! r) = messageCounter h'"
    using r h' consistentD(4)[OF assms(1), of c' h' r] by (auto simp: nth_append new_conn_def)
next
  fix e assume e: "e < length (emitter_objs ?s')"
  then have e': "e < length (emitter_objs s) \<or> e = length (emitter_objs s)" by auto
  have old: "e < length (emitter_objs s) \<Longrightarrow> distinct (on_broadcast (emitter_objs s ! e))"
    "\<And>r. e < length (emitter_objs s) \<Longrightarrow> r \<in> set (on_broadcast (emitter_objs s ! e)) \<Longrightarrow>
       r < length (conns s) \<and> c_emitter (conns s ! r) = e"
    using assms(1) unfolding consistent_def by blast+
  have ls: "on_broadcast (emitter_objs ?s' ! e) =
      (if e = length (emitter_objs s) then [length (conns s)]
       else on_broadcast (emitter_objs s ! e))"
    using e' by (auto simp: nth_append)
  show "distinct (on_broadcast (emitter_objs ?s' ! e))"
    using old(1) e' ls by (auto split: if_splits)
  fix r assume "r \<in> set (on_broadcast (emitter_objs ?s' ! e))"
  then have r: "(e < length (emitter_objs s) \<and> r \<in> set (on_broadcast (emitter_objs s ! e)))
       \<or> (e = length (emitter_objs s) \<and> r = length (conns s))"
    using ls e' by (auto split: if_splits)
  show "r < length (conns ?s')" using r old(2)[of r] by auto
  show "c_emitter (conns ?s' ! r) = e"
    using r old(2)[of r] by (auto simp: nth_append new_conn_def)
qed

lemma consistent_subscribe_old:
  assumes "consistent s" "eventEmitters s c = Some h"
  shows "consistent (s\<lparr>conns := conns s @ [new_conn c (emitter h) (messageCounter h)],
               emitter_objs := (emitter_objs s)[emitter h :=
                  add_listener (length (conns s)) (emitter_objs s ! emitter h)]\<rparr>)"
    (is "consistent ?s'")
  unfolding consistent_def
proof (intro conjI allI impI ballI)
  fix c' h' assume h': "eventEmitters ?s' c' = Some h'"
  then have old: "eventEmitters s c' = Some h'" by simp
  note D = consistentD[OF assms(1) old]
  show "emitter h' < length (emitter_objs ?s')" using D(1) by simp
  have ls: "on_broadcast (emitter_objs ?s' ! emitter h') =
      (if c' = c then subscribers s c @ [length (conns s)] else subscribers s c')"
    using D(1) consistentD(1)[OF assms] emitter_inj[OF assms(1) old assms(2)] old assms(2)
    by (auto simp: nth_list_update add_listener_def subscribers_def)
  show "on_broadcast (emitter_objs ?s' ! emitter h') \<noteq> []"
    using ls D(2) by (auto split: if_splits)
  fix r assume "r \<in> set (on_broadcast (emitter_objs ?s' ! emitter h'))"
  then have r: "r \<in> set (subscribers s c') \<or> (c' = c \<and> r = length (conns s))"
    using ls by (auto split: if_splits)
  show "c_channelId (conns ?s' ! r) = c'"
    using r D(4)[of r] by (auto simp: nth_append new_conn_def)
  show "c_messageCounter (conns ?s' ! r) = messageCounter h'"
    using r D(4)[of r] old assms(2) by (auto simp: nth_append new_conn_def)
next
  fix e assume e: "e < length (emitter_objs ?s')"
  then have e': "e < length (emitter_objs s)" by simp
  have old: "distinct (on_broadcast (emitter_objs s ! e))"
    "\<And>r. r \<in> set (on_broadcast (emitter_objs s ! e)) \<Longrightarrow>
       r < length (conns s) \<and> c_emitter (conns s ! r) = e"
    using assms(1) e' unfolding consistent_def by blast+
  have ls: "on_broadcast (emitter_objs ?s' ! e) =
      (if e = emitter h then on_broadcast (emitter_objs s ! e) @ [length (conns s)]
       else on_broadcast (emitter_objs s ! e))"
    using e' by (auto simp: nth_list_update add_listener_def)
  show "distinct (on_broadcast (emitter_objs ?s' ! e))"
    using old ls by (auto split: if_splits)
  fix r assume "r \<in> set (on_broadcast (emitter_objs ?s' ! e))"
  then have r: "r \<in> set (on_broadcast (emitter_objs s ! e)) \<or> (e = emitter h \<and> r = length (conns s))"
    using ls by (auto split: if_splits)
  show "r < length (conns ?s')" using r old(2)[of r] by auto
  show "c_emitter (conns ?s' ! r) = e"
    using r old(2)[of r] by (auto simp: nth_append new_conn_def)
qed

lemma deliver_closure [simp]:
  "c_channelId (deliver d cn) = c_channelId cn"
  "c_emitter (deliver d cn) = c_emitter cn"
  "c_messageCounter (deliver d cn) = Suc (c_messageCounter cn)"
  "intervalId (deliver d cn) = intervalId cn"
  "connected (deliver d cn) = connected cn"
  "written (deliver d cn) = written cn @ [Data d, Id_line (c_messageCounter cn)]"
  by (simp_all add: deliver_def)

lemma consistent_emit:
  assumes "consistent s" "eventEmitters s c = Some h"
  shows "consistent (emit_broadcast (emitter h) d s)"
proof -
  define s' where "s' = emit_broadcast (emitter h) d s"
  have eo: "emitter_objs s' = emitter_objs s"
    and len: "length (conns s') = length (conns s)"
    and cn: "\<And>i. i < length (conns s) \<Longrightarrow> conns s' ! i =
        (if i \<in> set (subscribers s c) then deliver d (conns s ! i) else conns s ! i)"
    and ee: "eventEmitters s' = (eventEmitters s)(c \<mapsto>
          \<lparr>emitter = emitter h, messageCounter = messageCounter h + 1\<rparr>)"
    unfolding s'_def emit_broadcast_eq[OF assms] by simp_all
  note Dc = consistentD[OF assms]
  have "consistent s'"
    unfolding consistent_def
  proof (intro conjI allI impI ballI)
    fix c' h' assume h': "eventEmitters s' c' = Some h'"
    obtain h0 where old: "eventEmitters s c' = Some h0" and em: "emitter h' = emitter h0"
      and mc: "messageCounter h' = (if c' = c then messageCounter h0 + 1 else messageCounter h0)"
      using h' assms(2) by (auto simp: ee split: if_splits)
    note D = consistentD[OF assms(1) old]
    show "emitter h' < length (emitter_objs s')" using D(1) by (simp add: eo em)
    have ls: "on_broadcast (emitter_objs s' ! emitter h') = subscribers s c'"
      using old by (simp add: eo em subscribers_def)
    show "on_broadcast (emitter_objs s' ! emitter h') \<noteq> []" using D(2) by (simp add: ls)
    fix r assume "r \<in> set (on_broadcast (emitter_objs s' ! emitter h'))"
    then have r: "r \<in> set (subscribers s c')" by (simp add: ls)
    have rl: "r < length (conns s)" using D(4)[OF r] by simp
    have mem: "r \<in> set (subscribers s c) \<longleftrightarrow> c' = c"
    proof
      assume "r \<in> set (subscribers s c)"
      then have "emitter h0 = emitter h" using Dc(4)[of r] D(4)[OF r] by simp
      then show "c' = c" using emitter_inj[OF assms(1) old assms(2)] by simp
    next
      assume "c' = c" then show "r \<in> set (subscribers s c)" using r by simp
    qed
    show "c_channelId (conns s' ! r) = c'"
      using D(4)[OF r] by (simp add: cn[OF rl])
    show "c_messageCounter (conns s' ! r) = messageCounter h'"
      using D(4)[OF r] mem by (simp add: cn[OF rl] mc)
  next
    fix e assume e: "e < length (emitter_objs s')"
    then have e': "e < length (emitter_objs s)" by (simp add: eo)
    have old: "distinct (on_broadcast (emitter_objs s ! e))"
      "\<And>r. r \<in> set (on_broadcast (emitter_objs s ! e)) \<Longrightarrow>
         r < length (conns s) \<and> c_emitter (conns s ! r) = e"
      using assms(1) e' unfolding consistent_def by blast+
    show "distinct (on_broadcast (emitter_objs s' ! e))" using old(1) by (simp add: eo)
    fix r assume "r \<in> set (on_broadcast (emitter_objs s' ! e))"
    then have r: "r \<in> set (on_broadcast (emitter_objs s ! e))" by (simp add: eo)
    show "r < length (conns s')" using old(2)[OF r] by (simp add: len)
    show "c_emitter (conns s' ! r) = e" using old(2)[OF r] by (simp add: cn)
  qed
  then show ?thesis by (simp add: s'_def)
qed

lemma consistent_step:
  assumes "consistent s"
  shows "consistent (step ev s)"
proof (cases ev)
  case (Post_channel name db)
  then show ?thesis using assms by simp
next
  case (Delete_channel c q1 q2)
  then show ?thesis using assms consistent_delete[OF assms]
    by (simp add: delete_channel_state)
next
  case (Get_events accept c)
  then show ?thesis
    using assms consistent_subscribe_new[OF assms] consistent_subscribe_old[OF assms]
    by (simp add: get_events_state split: option.splits)
next
  case (Post_message c content username db)
  then show ?thesis
    using assms consistent_emit[OF assms]
    by (simp add: post_message_state split: answer.splits option.splits prod.splits)
next
  case (Interval_fires r)
  then show ?thesis
    using assms
    by (auto simp: interval_callback_def res_write_def Let_def nth_list_update
        intro!: consistent_closure_cong[OF assms])
next
  case (Client_disconnects r)
  then show ?thesis
    using assms
    by (auto simp: nth_list_update intro!: consistent_closure_cong[OF assms])
qed

lemma consistent_run: "consistent s \<Longrightarrow> consistent (run evs s)"
  by (induction evs arbitrary: s) (simp_all add: consistent_step)

lemma consistent_reachable: "consistent (run evs init)"
  by (simp add: consistent_run consistent_init)

section \<open>Evaluating concrete runs\<close>

lemmas eval_defs = init_def get_events_state post_message_state delete_channel_state
  emit_broadcast_def broadcast_listener_def res_write_def interval_callback_def
  subscribers_def new_conn_def add_listener_def Let_def

section \<open>One publish, one pair for every subscriber\<close>

text \<open>
  C1. In every reachable state, a post that reaches the broadcast step of a channel with
  a hub makes every subscriber of that hub write the same two chunks: the payload of the
  post and the counter stored in the hub. The callbacks read the number from their own
  closure, which by \<open>consistent\<close> equals the stored one; the stored counter goes up by
  one per publish. A subscriber that is still connected receives the pair.
\<close>

theorem publish_same_pair:
  assumes "s = run evs init"
    and "eventEmitters s c = Some h"
    and "s' = snd (post_message c content username (Resolved (i, created_at)) s)"
    and "d = \<lparr>m_channelId = c, m_id = i, m_username = username, m_content = content,
               m_created_at = created_at\<rparr>"
  shows "(\<forall>r \<in> set (subscribers s c).
            written (conns s' ! r) = written (conns s ! r) @ [Data d, Id_line (messageCounter h)] \<and>
            (connected (conns s ! r) \<longrightarrow>
               received (conns s' ! r) =
                 received (conns s ! r) @ [Data d, Id_line (messageCounter h)])) \<and>
         eventEmitters s' c = Some \<lparr>emitter = emitter h, messageCounter = messageCounter h + 1\<rparr>"
proof -
  have con: "consistent s" using assms(1) by (simp add: consistent_reachable)
  have s': "s' = emit_broadcast (emitter h) d s"
    using assms by (simp add: post_message_state)
  note D = consistentD[OF con assms(2)]
  show ?thesis
    unfolding s' emit_broadcast_eq[OF con assms(2)]
    using D(4) by (auto simp: deliver_def)
qed

text \<open>Two subscribers that joined at different times, one before and one after a publish.\<close>

theorem publish_same_pair_witness:
  "eventEmitters (run [Get_events (Some ''text/event-stream'') ''1'',
       Post_message ''1'' (JStr ''hi'') (JStr ''alice'') (Resolved (JNum 7, JStr ''t0'')),
       Get_events (Some ''text/event-stream'') ''1''] init) ''1''
     = Some \<lparr>emitter = 0, messageCounter = 2\<rparr> \<and>
   subscribers (run [Get_events (Some ''text/event-stream'') ''1'',
       Post_message ''1'' (JStr ''hi'') (JStr ''alice'') (Resolved (JNum 7, JStr ''t0'')),
       Get_events (Some ''text/event-stream'') ''1''] init) ''1'' = [0, 1] \<and>
   written (conns (snd (post_message ''1'' (JStr ''bye'') (JStr ''bob'')
       (Resolved (JNum 8, JStr ''t1''))
       (run [Get_events (Some ''text/event-stream'') ''1'',
         Post_message ''1'' (JStr ''hi'') (JStr ''alice'') (Resolved (JNum 7, JStr ''t0'')),
         Get_events (Some ''text/event-stream'') ''1''] init))) ! 0) =
     [Init,
      Data \<lparr>m_channelId = ''1'', m_id = JNum 7, m_username = JStr ''alice'',
             m_content = JStr ''hi'', m_created_at = JStr ''t0''\<rparr>, Id_line 1,
      Data \<lparr>m_channelId = ''1'', m_id = JNum 8, m_username = JStr ''bob'',
             m_content = JStr ''bye'', m_created_at = JStr ''t1''\<rparr>, Id_line 2] \<and>
   written (conns (snd (post_message ''1'' (JStr ''bye'') (JStr ''bob'')
       (Resolved (JNum 8, JStr ''t1''))
       (run [Get_events (Some ''text/event-stream'') ''1'',
         Post_message ''1'' (JStr ''hi'') (JStr ''alice'') (Resolved (JNum 7, JStr ''t0'')),
         Get_events (Some ''text/event-stream'') ''1''] init))) ! 1) =
     [Init,
      Data \<lparr>m_channelId = ''1'', m_id = JNum 8, m_username = JStr ''bob'',
             m_content = JStr ''bye'', m_created_at = JStr ''t1''\<rparr>, Id_line 2]"
proof -
  let ?s = "run [Get_events (Some ''text/event-stream'') ''1'',
       Post_message ''1'' (JStr ''hi'') (JStr ''alice'') (Resolved (JNum 7, JStr ''t0'')),
       Get_events (Some ''text/event-stream'') ''1''] init"
  have h: "eventEmitters ?s ''1'' = Some \<lparr>emitter = 0, messageCounter = 2\<rparr>"
    by (simp add: eval_defs)
  have ls: "subscribers ?s ''1'' = [0, 1]"
    by (simp add: eval_defs)
  have w: "written (conns ?s ! 0) =
     [Init,
      Data \<lparr>m_channelId = ''1'', m_id = JNum 7, m_username = JStr ''alice'',
             m_content = JStr ''hi'', m_created_at = JStr ''t0''\<rparr>, Id_line 1]"
    "written (conns ?s ! 1) = [Init]"
    by (simp_all add: eval_defs)
  from publish_same_pair[OF refl h refl refl,
      of "JStr ''bye''" "JStr ''bob''" "JNum 8" "JStr ''t1''"]
  show ?thesis
    unfolding ls using h w by simp
qed

section \<open>What one event does to one channel\<close>

lemma deletes_excl:
  "deletes c ev \<Longrightarrow> \<not> subscribes c ev \<and> posts c ev = None"
  "subscribes c ev \<Longrightarrow> posts c ev = None"
  by (cases ev; simp)+

lemma step_registry:
  assumes "consistent s"
  shows "eventEmitters (step ev s) c =
     (if deletes c ev then None
      else if subscribes c ev then
        (case eventEmitters s c of
           None \<Rightarrow> Some \<lparr>emitter = length (emitter_objs s), messageCounter = 1\<rparr>
         | Some h \<Rightarrow> Some h)
      else case posts c ev of
             Some d \<Rightarrow> map_option (\<lambda>h. h\<lparr>messageCounter := messageCounter h + 1\<rparr>)
                         (eventEmitters s c)
           | None \<Rightarrow> eventEmitters s c)"
proof (cases ev)
  case (Post_channel name db)
  then show ?thesis by simp
next
  case (Delete_channel c' q1 q2)
  then show ?thesis by (auto simp: delete_channel_state)
next
  case (Get_events accept c')
  then show ?thesis by (auto simp: get_events_state split: option.splits)
next
  case (Post_message c' content username db)
  show ?thesis
  proof (cases db)
    case Rejected
    then show ?thesis using Post_message by (simp add: post_message_state)
  next
    case (Resolved row)
    obtain i created_at where row: "row = (i, created_at)" by (cases row)
    show ?thesis
    proof (cases "eventEmitters s c'")
      case None
      then show ?thesis using Post_message Resolved row
        by (auto simp: post_message_state)
    next
      case (Some h)
      then show ?thesis using Post_message Resolved row
        by (auto simp: post_message_state emit_broadcast_eq[OF assms Some])
    qed
  qed
next
  case (Interval_fires r)
  then show ?thesis by (simp add: interval_callback_def res_write_def Let_def)
next
  case (Client_disconnects r)
  then show ?thesis by simp
qed

lemma step_emitter_objs:
  assumes "consistent s"
  shows "emitter_objs (step ev s) =
     (case ev of
        Get_events accept c \<Rightarrow>
          (if accept = Some ''text/event-stream'' \<and> c \<noteq> [] then
             (case eventEmitters s c of
                None \<Rightarrow> emitter_objs s @
                  [\<lparr>on_broadcast = [length (conns s)], on_close = [length (conns s)]\<rparr>]
              | Some h \<Rightarrow> (emitter_objs s)[emitter h :=
                  add_listener (length (conns s)) (emitter_objs s ! emitter h)])
           else emitter_objs s)
      | _ \<Rightarrow> emitter_objs s)"
proof (cases ev)
  case (Post_message c' content username db)
  show ?thesis
  proof (cases "eventEmitters s c'")
    case None
    then show ?thesis using Post_message
      by (simp add: post_message_state split: answer.splits prod.splits)
  next
    case (Some h)
    then show ?thesis using Post_message
      by (simp add: post_message_state emit_broadcast_eq[OF assms Some]
          split: answer.splits prod.splits)
  qed
qed (simp_all add: delete_channel_state get_events_state interval_callback_def res_write_def
      Let_def split: option.splits)

lemma step_subscribers:
  assumes "consistent s"
  shows "subscribers (step ev s) c =
     (if deletes c ev then []
      else if subscribes c ev then subscribers s c @ [length (conns s)]
      else subscribers s c)"
proof (cases "deletes c ev")
  case True
  then show ?thesis by (simp add: subscribers_def step_registry[OF assms])
next
  case nd: False
  show ?thesis
  proof (cases "subscribes c ev")
    case True
    then obtain accept where ev: "ev = Get_events accept c" and
      ok: "accept = Some ''text/event-stream''" "c \<noteq> []"
      by (cases ev) auto
    show ?thesis
    proof (cases "eventEmitters s c")
      case None
      then show ?thesis using ev ok
        by (simp add: subscribers_def get_events_state)
    next
      case (Some h)
      then show ?thesis using ev ok consistentD(1)[OF assms Some]
        by (simp add: subscribers_def get_events_state add_listener_def)
    qed
  next
    case ns: False
    show ?thesis
    proof (cases "eventEmitters s c")
      case None
      then have "eventEmitters (step ev s) c = None"
        using nd ns by (simp add: step_registry[OF assms] split: option.splits)
      then show ?thesis using None nd ns by (simp add: subscribers_def)
    next
      case (Some h)
      have "\<exists>h'. eventEmitters (step ev s) c = Some h' \<and> emitter h' = emitter h"
        using Some nd ns by (cases "posts c ev") (simp_all add: step_registry[OF assms])
      then obtain h' where h': "eventEmitters (step ev s) c = Some h'" "emitter h' = emitter h"
        by blast
      have "on_broadcast (emitter_objs (step ev s) ! emitter h) =
            on_broadcast (emitter_objs s ! emitter h)"
      proof (cases ev)
        case (Get_events accept c')
        show ?thesis
        proof (cases "accept = Some ''text/event-stream'' \<and> c' \<noteq> []")
          case False
          then show ?thesis using Get_events by (auto simp: get_events_state)
        next
          case True
          then have ne: "c' \<noteq> c" using ns Get_events by auto
          show ?thesis
          proof (cases "eventEmitters s c'")
            case None
            then show ?thesis using Get_events True consistentD(1)[OF assms Some]
              by (simp add: get_events_state nth_append)
          next
            case h2: (Some h2)
            have "emitter h2 \<noteq> emitter h"
              using emitter_inj[OF assms h2 Some] ne by auto
            then show ?thesis using Get_events True h2
              by (simp add: get_events_state)
          qed
        qed
      qed (use step_emitter_objs[OF assms, of ev] in simp_all)
      then show ?thesis using h' Some nd ns by (simp add: subscribers_def)
    qed
  qed
qed

section \<open>The registry follows the history\<close>

lemma since_deletion_snoc:
  "since_deletion c (evs @ [ev]) = (if deletes c ev then [] else since_deletion c evs @ [ev])"
  by (simp add: since_deletion_def)

lemma hub_events_snoc:
  "hub_events c (evs @ [ev]) =
     (if deletes c ev then []
      else if hub_events c evs \<noteq> [] then hub_events c evs @ [ev]
      else if subscribes c ev then [ev] else [])"
  by (auto simp: hub_events_def since_deletion_snoc dropWhile_append dropWhile_eq_Nil_conv)

lemma published_snoc:
  "published c (evs @ [ev]) =
     published c evs @ (case posts c ev of None \<Rightarrow> [] | Some d \<Rightarrow> [d])"
  by (simp add: published_def map_filter_def split: option.splits)

lemma published_Cons:
  "published c (ev # evs) =
     (case posts c ev of None \<Rightarrow> published c evs | Some d \<Rightarrow> d # published c evs)"
  by (simp add: published_def map_filter_def split: option.splits)

lemma published_Nil [simp]: "published c [] = []"
  by (simp add: published_def map_filter_def)

lemma hub_events_Nil [simp]: "hub_events c [] = []"
  by (simp add: hub_events_def since_deletion_def)

lemma hub_tracks:
  "(case eventEmitters (run evs init) c of
      None \<Rightarrow> hub_events c evs = []
    | Some h \<Rightarrow> hub_events c evs \<noteq> [] \<and>
        messageCounter h = Suc (length (published c (hub_events c evs))))"
proof (induction evs rule: rev_induct)
  case Nil
  then show ?case by (simp add: init_def)
next
  case (snoc ev evs)
  have con: "consistent (run evs init)" by (rule consistent_reachable)
  have run: "run (evs @ [ev]) init = step ev (run evs init)" by (simp add: run_append)
  show ?case
  proof (cases "eventEmitters (run evs init) c")
    case None
    then have "hub_events c evs = []" using snoc by simp
    then show ?thesis using None deletes_excl[of c ev]
      by (auto simp: run step_registry[OF con] hub_events_snoc published_Cons
          split: option.splits)
  next
    case (Some h)
    then have "hub_events c evs \<noteq> []"
      "messageCounter h = Suc (length (published c (hub_events c evs)))"
      using snoc by simp_all
    then show ?thesis using Some deletes_excl[of c ev]
      by (auto simp: run step_registry[OF con] hub_events_snoc published_snoc
          split: option.splits)
  qed
qed

lemma hub_events_nonempty:
  "hub_events c evs \<noteq> [] \<longleftrightarrow> (\<exists>ev \<in> set (since_deletion c evs). subscribes c ev)"
  by (auto simp: hub_events_def dropWhile_eq_Nil_conv)

lemma publish_effect:
  assumes "consistent s" "eventEmitters s c = Some h"
    and "r \<in> set (subscribers s c)"
  shows "written (conns (snd (post_message c content username (Resolved (i, created_at)) s)) ! r) =
     written (conns s ! r) @
       [Data \<lparr>m_channelId = c, m_id = i, m_username = username, m_content = content,
               m_created_at = created_at\<rparr>, Id_line (messageCounter h)]"
  using consistentD(4)[OF assms]
  by (simp add: post_message_state assms(2) emit_broadcast_eq[OF assms(1,2)] assms(3))

lemmas history_defs = since_deletion_def hub_events_def published_def map_filter_def

section \<open>The Nth publish on a hub carries the id N\<close>

text \<open>
  C2. Take any history and a channel whose hub exists after it, and let \<open>N - 1\<close> be the
  number of publishes made on that hub since it was created (the posts to the channel
  that reached the broadcast step after the first subscribe that followed the last
  deletion). Then the stored counter is \<open>N\<close>, the next publish writes \<open>id: N\<close> on every
  subscriber's stream, and leaves the stored counter at \<open>N + 1\<close>. With no publish yet,
  \<open>N = 1\<close>.
\<close>

theorem nth_publish_has_id_n:
  assumes "s = run evs init"
    and "hub_events c evs \<noteq> []"
    and "N = Suc (length (published c (hub_events c evs)))"
    and "s' = snd (post_message c content username (Resolved (i, created_at)) s)"
  shows "map_option messageCounter (eventEmitters s c) = Some N \<and>
         subscribers s c \<noteq> [] \<and>
         (\<forall>r \<in> set (subscribers s c).
            written (conns s' ! r) = written (conns s ! r) @
              [Data \<lparr>m_channelId = c, m_id = i, m_username = username, m_content = content,
                      m_created_at = created_at\<rparr>, Id_line N]) \<and>
         map_option messageCounter (eventEmitters s' c) = Some (Suc N)"
proof -
  have con: "consistent s" using assms(1) by (simp add: consistent_reachable)
  obtain h where h: "eventEmitters s c = Some h" and n: "messageCounter h = N"
    using hub_tracks[where evs=evs and c=c] assms(1-3) by (cases "eventEmitters s c") auto
  have after: "eventEmitters s' c =
      Some \<lparr>emitter = emitter h, messageCounter = messageCounter h + 1\<rparr>"
    by (simp add: assms(4) post_message_state h emit_broadcast_eq[OF con h])
  show ?thesis
    using h n after consistentD(2)[OF con h] publish_effect[OF con h]
    by (simp add: assms(4))
qed

theorem nth_publish_has_id_n_witness:
  "hub_events ''1'' [Get_events (Some ''text/event-stream'') ''1'',
       Post_message ''1'' (JStr ''hi'') (JStr ''alice'') (Resolved (JNum 7, JStr ''t0''))] \<noteq> [] \<and>
   Suc (length (published ''1'' (hub_events ''1'' [Get_events (Some ''text/event-stream'') ''1'',
       Post_message ''1'' (JStr ''hi'') (JStr ''alice'') (Resolved (JNum 7, JStr ''t0''))]))) = 2 \<and>
   subscribers (run [Get_events (Some ''text/event-stream'') ''1'',
       Post_message ''1'' (JStr ''hi'') (JStr ''alice'') (Resolved (JNum 7, JStr ''t0''))] init)
     ''1'' = [0] \<and>
   written (conns (snd (post_message ''1'' (JStr ''bye'') (JStr ''bob'')
       (Resolved (JNum 8, JStr ''t1''))
       (run [Get_events (Some ''text/event-stream'') ''1'',
         Post_message ''1'' (JStr ''hi'') (JStr ''alice'') (Resolved (JNum 7, JStr ''t0''))]
         init))) ! 0) =
     [Init,
      Data \<lparr>m_channelId = ''1'', m_id = JNum 7, m_username = JStr ''alice'',
             m_content = JStr ''hi'', m_created_at = JStr ''t0''\<rparr>, Id_line 1,
      Data \<lparr>m_channelId = ''1'', m_id = JNum 8, m_username = JStr ''bob'',
             m_content = JStr ''bye'', m_created_at = JStr ''t1''\<rparr>, Id_line 2]"
proof -
  let ?evs = "[Get_events (Some ''text/event-stream'') ''1'',
       Post_message ''1'' (JStr ''hi'') (JStr ''alice'') (Resolved (JNum 7, JStr ''t0''))]"
  have a: "hub_events ''1'' ?evs \<noteq> []" by (simp add: history_defs)
  have b: "2 = Suc (length (published ''1'' (hub_events ''1'' ?evs)))"
    by (simp add: history_defs)
  have ls: "subscribers (run ?evs init) ''1'' = [0]" by (simp add: eval_defs)
  have w: "written (conns (run ?evs init) ! 0) =
     [Init,
      Data \<lparr>m_channelId = ''1'', m_id = JNum 7, m_username = JStr ''alice'',
             m_content = JStr ''hi'', m_created_at = JStr ''t0''\<rparr>, Id_line 1]"
    by (simp add: eval_defs)
  from nth_publish_has_id_n[OF refl a b refl, of "JStr ''bye''" "JStr ''bob''" "JNum 8" "JStr ''t1''"]
  show ?thesis
    unfolding ls using a b w by simp
qed

section \<open>When a channel has a hub\<close>

lemma takeWhile_conj_subset:
  "set (takeWhile (\<lambda>x. P x \<and> Q x) xs) \<subseteq> set (takeWhile P xs)"
  by (induction xs) auto

lemma claimed_hub_since_deletion:
  "claimed_hub c evs \<Longrightarrow> \<exists>ev \<in> set (since_deletion c evs). subscribes c ev"
  using takeWhile_conj_subset[of "\<lambda>ev. \<not> deletes c ev" "\<lambda>ev. \<not> creates c ev" "rev evs"]
  by (auto simp: claimed_hub_def since_creation_def since_deletion_def list_ex_iff)

text \<open>
  C8, as the claim states it, fails: a stream is opened on \<open>"5"\<close>, and then
  \<open>POST /channel\<close> creates the channel with id 5. The hub exists, and no subscribe has
  occurred since the channel's creation.
\<close>

theorem hub_without_subscribe_since_creation:
  "eventEmitters (run [Get_events (Some ''text/event-stream'') ''5'',
                       Post_channel (JStr ''general'') (Resolved (JNum 5))] init) ''5'' =
     Some \<lparr>emitter = 0, messageCounter = 1\<rparr> \<and>
   \<not> claimed_hub ''5'' [Get_events (Some ''text/event-stream'') ''5'',
                         Post_channel (JStr ''general'') (Resolved (JNum 5))]"
  by (simp add: eval_defs claimed_hub_def since_creation_def decimal.simps[of 5] digit_def)

text \<open>
  C8, amended. After any history, the registry has an entry for a channel exactly when a
  stream was opened on the channel since its last deletion (since the start, if it was
  never deleted), whether or not the channel had been created by then: creating a
  channel changes nothing in the registry. So a subscribe since the channel's creation
  or last removal, with no deletion since, is enough for the hub to exist, but not
  needed. A deletion whose two queries resolve leaves no entry. A stream opened on a
  channel without an entry creates one with a new emitter, counter 1, whose only
  subscriber is that stream.
\<close>

theorem hub_exists_iff_subscribed_since_deletion:
  assumes "s = run evs init"
  shows "((eventEmitters s c \<noteq> None) = (\<exists>ev \<in> set (since_deletion c evs). subscribes c ev)) \<and>
         (claimed_hub c evs \<longrightarrow> eventEmitters s c \<noteq> None) \<and>
         (\<forall>name db. step (Post_channel name db) s = s) \<and>
         (c \<noteq> [] \<longrightarrow> eventEmitters (step (Delete_channel c True True) s) c = None) \<and>
         (c \<noteq> [] \<and> eventEmitters s c = None \<longrightarrow>
            eventEmitters (step (Get_events (Some ''text/event-stream'') c) s) c =
              Some \<lparr>emitter = length (emitter_objs s), messageCounter = 1\<rparr> \<and>
            subscribers (step (Get_events (Some ''text/event-stream'') c) s) c =
              [length (conns s)])"
proof -
  have con: "consistent s" using assms by (simp add: consistent_reachable)
  have "(eventEmitters s c \<noteq> None) = (hub_events c evs \<noteq> [])"
    using hub_tracks[where evs=evs and c=c] assms by (cases "eventEmitters s c") auto
  then have 1: "(eventEmitters s c \<noteq> None) = (\<exists>ev \<in> set (since_deletion c evs). subscribes c ev)"
    by (simp add: hub_events_nonempty)
  have 0: "claimed_hub c evs \<longrightarrow> eventEmitters s c \<noteq> None"
    using 1 claimed_hub_since_deletion[of c evs] by blast
  have 2: "c \<noteq> [] \<longrightarrow> eventEmitters (step (Delete_channel c True True) s) c = None"
    using step_registry[OF con, of "Delete_channel c True True" c] by simp
  have 3: "c \<noteq> [] \<and> eventEmitters s c = None \<longrightarrow>
            eventEmitters (step (Get_events (Some ''text/event-stream'') c) s) c =
              Some \<lparr>emitter = length (emitter_objs s), messageCounter = 1\<rparr> \<and>
            subscribers (step (Get_events (Some ''text/event-stream'') c) s) c =
              [length (conns s)]"
    using step_registry[OF con, of "Get_events (Some ''text/event-stream'') c" c]
      step_subscribers[OF con, of "Get_events (Some ''text/event-stream'') c" c]
    by (auto simp: subscribers_def)
  have 4: "\<forall>name db. step (Post_channel name db) s = s" by simp
  show ?thesis using 0 1 2 3 4 by blast
qed

text \<open>
  A history with a creation, a stream, a publish and a deletion; then a stream is opened
  again.
\<close>

theorem hub_exists_iff_subscribed_since_deletion_witness:
  "since_deletion ''1'' [Post_channel (JStr ''general'') (Resolved (JNum 1)),
       Get_events (Some ''text/event-stream'') ''1'',
       Post_message ''1'' (JStr ''hi'') (JStr ''alice'') (Resolved (JNum 7, JStr ''t0'')),
       Delete_channel ''1'' True True] = [] \<and>
   eventEmitters (run [Post_channel (JStr ''general'') (Resolved (JNum 1)),
       Get_events (Some ''text/event-stream'') ''1'',
       Post_message ''1'' (JStr ''hi'') (JStr ''alice'') (Resolved (JNum 7, JStr ''t0'')),
       Delete_channel ''1'' True True] init) ''1'' = None \<and>
   eventEmitters (step (Get_events (Some ''text/event-stream'') ''1'')
     (run [Post_channel (JStr ''general'') (Resolved (JNum 1)),
       Get_events (Some ''text/event-stream'') ''1'',
       Post_message ''1'' (JStr ''hi'') (JStr ''alice'') (Resolved (JNum 7, JStr ''t0'')),
       Delete_channel ''1'' True True] init)) ''1'' = Some \<lparr>emitter = 1, messageCounter = 1\<rparr> \<and>
   subscribers (step (Get_events (Some ''text/event-stream'') ''1'')
     (run [Post_channel (JStr ''general'') (Resolved (JNum 1)),
       Get_events (Some ''text/event-stream'') ''1'',
       Post_message ''1'' (JStr ''hi'') (JStr ''alice'') (Resolved (JNum 7, JStr ''t0'')),
       Delete_channel ''1'' True True] init)) ''1'' = [1] \<and>
   claimed_hub ''1'' [Post_channel (JStr ''general'') (Resolved (JNum 1)),
       Get_events (Some ''text/event-stream'') ''1''] \<and>
   eventEmitters (run [Post_channel (JStr ''general'') (Resolved (JNum 1)),
       Get_events (Some ''text/event-stream'') ''1''] init) ''1'' \<noteq> None"
proof -
  let ?evs = "[Post_channel (JStr ''general'') (Resolved (JNum 1)),
       Get_events (Some ''text/event-stream'') ''1'',
       Post_message ''1'' (JStr ''hi'') (JStr ''alice'') (Resolved (JNum 7, JStr ''t0'')),
       Delete_channel ''1'' True True]"
  let ?pre = "[Post_channel (JStr ''general'') (Resolved (JNum 1)),
       Get_events (Some ''text/event-stream'') ''1'']"
  have a: "since_deletion ''1'' ?evs = []" by (simp add: history_defs)
  have n: "length (emitter_objs (run ?evs init)) = 1" "length (conns (run ?evs init)) = 1"
    by (simp_all add: eval_defs)
  have ne: "''1'' \<noteq> ([] :: string)" by simp
  have cl: "claimed_hub ''1'' ?pre"
    by (simp add: claimed_hub_def since_creation_def decimal.simps[of 1] digit_def)
  have A: "eventEmitters (run ?evs init) ''1'' = None"
    using hub_exists_iff_subscribed_since_deletion[OF refl, where c="''1''" and evs="?evs"]
    unfolding a by simp
  have B: "eventEmitters (step (Get_events (Some ''text/event-stream'') ''1'')
              (run ?evs init)) ''1'' = Some \<lparr>emitter = 1, messageCounter = 1\<rparr> \<and>
           subscribers (step (Get_events (Some ''text/event-stream'') ''1'')
              (run ?evs init)) ''1'' = [1]"
    using hub_exists_iff_subscribed_since_deletion[OF refl, where c="''1''" and evs="?evs"]
      A ne unfolding n by blast
  have C: "eventEmitters (run ?pre init) ''1'' \<noteq> None"
    using hub_exists_iff_subscribed_since_deletion[OF refl, where c="''1''" and evs="?pre"] cl
    by blast
  show ?thesis using a A B cl C by blast
qed

section \<open>What one stream is sent over time\<close>

lemma step_conns_length: "length (conns s) \<le> length (conns (step ev s))"
proof (cases ev)
  case (Post_message c' content username db)
  show ?thesis
  proof (cases db)
    case Rejected
    then show ?thesis using Post_message by (simp add: post_message_state)
  next
    case (Resolved row)
    have "length (conns (fold (broadcast_listener d) ls s0)) = length (conns s0)" for d ls s0
      by (induction ls arbitrary: s0) (simp_all add: broadcast_listener_def res_write_def Let_def)
    then show ?thesis using Post_message Resolved
      by (simp add: post_message_state emit_broadcast_def split: prod.splits option.splits)
  qed
qed (simp_all add: delete_channel_state get_events_state interval_callback_def res_write_def
      Let_def split: option.splits)

lemma step_conn:
  assumes "consistent s" "r < length (conns s)"
  shows "c_channelId (conns (step ev s) ! r) = c_channelId (conns s ! r) \<and>
         filter (\<lambda>ch. ch \<noteq> Comment) (written (conns (step ev s) ! r)) =
           filter (\<lambda>ch. ch \<noteq> Comment) (written (conns s ! r)) @
             (case posts (c_channelId (conns s ! r)) ev of
                Some d \<Rightarrow>
                  if r \<in> set (subscribers s (c_channelId (conns s ! r)))
                  then [Data d, Id_line (c_messageCounter (conns s ! r))] else []
              | None \<Rightarrow> [])"
proof (cases ev)
  case (Post_channel name db)
  then show ?thesis by simp
next
  case (Delete_channel c' q1 q2)
  then show ?thesis by (simp add: delete_channel_state)
next
  case (Get_events accept c')
  then show ?thesis using assms(2)
    by (simp add: get_events_state nth_append split: option.splits)
next
  case (Post_message c' content username db)
  show ?thesis
  proof (cases db)
    case Rejected
    then show ?thesis using Post_message by (simp add: post_message_state)
  next
    case (Resolved row)
    obtain i created_at where row: "row = (i, created_at)" by (cases row)
    show ?thesis
    proof (cases "eventEmitters s c'")
      case None
      then show ?thesis using Post_message Resolved row
        by (auto simp: post_message_state subscribers_def)
    next
      case (Some h)
      have "r \<in> set (subscribers s c') \<Longrightarrow> c_channelId (conns s ! r) = c'"
        using consistentD(4)[OF assms(1) Some] by simp
      then show ?thesis using Post_message Resolved row Some assms(2)
        by (auto simp: post_message_state emit_broadcast_eq[OF assms(1) Some])
    qed
  qed
next
  case (Interval_fires q)
  then show ?thesis using assms(2)
    by (simp add: interval_callback_def res_write_def Let_def nth_list_update)
next
  case (Client_disconnects q)
  then show ?thesis using assms(2) by (simp add: nth_list_update)
qed

lemma detached_stays_silent:
  assumes "consistent s" "r < length (conns s)"
    and "r \<notin> set (subscribers s (c_channelId (conns s ! r)))"
  shows "filter (\<lambda>ch. ch \<noteq> Comment) (written (conns (run evs s) ! r)) =
         filter (\<lambda>ch. ch \<noteq> Comment) (written (conns s ! r))"
  using assms
proof (induction evs arbitrary: s)
  case Nil
  then show ?case by simp
next
  case (Cons ev evs)
  let ?s1 = "step ev s"
  have 1: "consistent ?s1" by (rule consistent_step[OF Cons.prems(1)])
  have 2: "r < length (conns ?s1)"
    using Cons.prems(2) step_conns_length[of s ev] by simp
  note sc = step_conn[OF Cons.prems(1,2), of ev]
  have 3: "r \<notin> set (subscribers ?s1 (c_channelId (conns ?s1 ! r)))"
    using Cons.prems(2,3) sc by (simp add: step_subscribers[OF Cons.prems(1)])
  have "filter (\<lambda>ch. ch \<noteq> Comment) (written (conns ?s1 ! r)) =
        filter (\<lambda>ch. ch \<noteq> Comment) (written (conns s ! r))"
    using sc Cons.prems(3) by (simp split: option.splits)
  then show ?case using Cons.IH[OF 1 2 3] by simp
qed

lemma subscriber_gets_publishes:
  assumes "consistent s" "eventEmitters s c = Some h" "r \<in> set (subscribers s c)"
  shows "filter (\<lambda>ch. ch \<noteq> Comment) (written (conns (run evs s) ! r)) =
         filter (\<lambda>ch. ch \<noteq> Comment) (written (conns s ! r)) @
           frames (messageCounter h) (published c (takeWhile (\<lambda>ev. \<not> deletes c ev) evs))"
  using assms
proof (induction evs arbitrary: s h)
  case Nil
  then show ?case by simp
next
  case (Cons ev evs)
  let ?s1 = "step ev s"
  note D = consistentD(4)[OF Cons.prems]
  have rl: "r < length (conns s)" and ch: "c_channelId (conns s ! r) = c"
    and mc: "c_messageCounter (conns s ! r) = messageCounter h"
    using D by simp_all
  have 1: "consistent ?s1" by (rule consistent_step[OF Cons.prems(1)])
  have 2: "r < length (conns ?s1)" using rl step_conns_length[of s ev] by simp
  note sc = step_conn[OF Cons.prems(1) rl, of ev]
  show ?case
  proof (cases "deletes c ev")
    case True
    have 3: "r \<notin> set (subscribers ?s1 (c_channelId (conns ?s1 ! r)))"
      using sc ch True by (simp add: step_subscribers[OF Cons.prems(1)])
    have "filter (\<lambda>ch. ch \<noteq> Comment) (written (conns ?s1 ! r)) =
          filter (\<lambda>ch. ch \<noteq> Comment) (written (conns s ! r))"
      using sc ch deletes_excl(1)[OF True] by simp
    then show ?thesis using detached_stays_silent[OF 1 2 3, of evs] True by simp
  next
    case False
    have 3: "r \<in> set (subscribers ?s1 c)"
      using Cons.prems(3) False by (simp add: step_subscribers[OF Cons.prems(1)])
    show ?thesis
    proof (cases "posts c ev")
      case None
      have 4: "eventEmitters ?s1 c = Some h"
        using False None Cons.prems(2)
        by (simp add: step_registry[OF Cons.prems(1)])
      have "filter (\<lambda>ch. ch \<noteq> Comment) (written (conns ?s1 ! r)) =
            filter (\<lambda>ch. ch \<noteq> Comment) (written (conns s ! r))"
        using sc ch None by simp
      then show ?thesis using Cons.IH[OF 1 4 3] False None
        by (simp add: published_Cons)
    next
      case (Some d)
      then have ns: "\<not> subscribes c ev" using deletes_excl(2)[of c ev] by auto
      have 4: "eventEmitters ?s1 c = Some (h\<lparr>messageCounter := messageCounter h + 1\<rparr>)"
        using False Some ns Cons.prems(2)
        by (simp add: step_registry[OF Cons.prems(1)])
      have "filter (\<lambda>ch. ch \<noteq> Comment) (written (conns ?s1 ! r)) =
            filter (\<lambda>ch. ch \<noteq> Comment) (written (conns s ! r)) @
              [Data d, Id_line (messageCounter h)]"
        using sc ch mc Some Cons.prems(3) by simp
      then show ?thesis using Cons.IH[OF 1 4 3] False Some
        by (simp add: published_Cons)
    qed
  qed
qed

lemma all_received_step:
  assumes "consistent s" "all_received s"
  shows "all_received (step ev s)"
proof (cases ev)
  case (Post_channel name db)
  then show ?thesis using assms(2) by simp
next
  case (Delete_channel c' q1 q2)
  then show ?thesis using assms(2) by (simp add: delete_channel_state all_received_def)
next
  case (Get_events accept c')
  then show ?thesis using assms(2)
    by (auto simp: get_events_state all_received_def nth_append new_conn_def
        split: option.splits)
next
  case (Post_message c' content username db)
  show ?thesis
  proof (cases "eventEmitters s c'")
    case None
    then show ?thesis using Post_message assms(2)
      by (simp add: post_message_state split: answer.splits prod.splits)
  next
    case (Some h)
    then show ?thesis using Post_message assms(2)
      by (auto simp: post_message_state emit_broadcast_eq[OF assms(1) Some] all_received_def
          deliver_def split: answer.splits prod.splits)
  qed
next
  case (Interval_fires q)
  then show ?thesis using assms(2)
    by (auto simp: interval_callback_def res_write_def Let_def nth_list_update all_received_def)
next
  case (Client_disconnects q)
  then show ?thesis using assms(2) by (auto simp: nth_list_update all_received_def)
qed

lemma all_received_run:
  "consistent s \<Longrightarrow> all_received s \<Longrightarrow> all_received (run evs s)"
  by (induction evs arbitrary: s) (simp_all add: consistent_step all_received_step)

lemma all_received_reachable: "all_received (run evs init)"
  by (rule all_received_run[OF consistent_init]) (simp add: all_received_def init_def)

lemma run_conns_length: "length (conns s) \<le> length (conns (run evs s))"
proof (induction evs arbitrary: s)
  case Nil
  then show ?case by simp
next
  case (Cons ev evs)
  have "length (conns s) \<le> length (conns (step ev s))" by (rule step_conns_length)
  also have "\<dots> \<le> length (conns (run evs (step ev s)))" by (rule Cons)
  finally show ?case by simp
qed

section \<open>A late subscriber\<close>

text \<open>
  C7. A stream opened on channel \<open>c\<close> after \<open>K\<close> publishes on the channel's hub
  (\<open>K = 0\<close> when the open creates the hub) is sent, besides keepalive comments, the
  handshake and then exactly the publishes made on the channel from then on, numbered
  \<open>K + 1\<close>, \<open>K + 2\<close>, ..., up to the next deletion of the channel; nothing of the
  publishes before it, and nothing after the deletion. While the client is connected
  it has received all that was written.
\<close>

theorem late_subscriber_gets_later_publishes_only:
  assumes "s = run evs init"
    and "c \<noteq> []"
    and "K = length (published c (hub_events c evs))"
    and "s' = run (Get_events (Some ''text/event-stream'') c # later) s"
    and "r = length (conns s)"
  shows "filter (\<lambda>ch. ch \<noteq> Comment) (written (conns s' ! r)) =
           Init # frames (Suc K) (published c (takeWhile (\<lambda>ev. \<not> deletes c ev) later)) \<and>
         (connected (conns s' ! r) \<longrightarrow> received (conns s' ! r) = written (conns s' ! r))"
proof -
  let ?ev = "Get_events (Some ''text/event-stream'') c"
  let ?s1 = "step ?ev s"
  have con: "consistent s" using assms(1) by (simp add: consistent_reachable)
  have con1: "consistent ?s1" by (rule consistent_step[OF con])
  have sub: "r \<in> set (subscribers ?s1 c)"
    using step_subscribers[OF con, of ?ev c] assms(2,5) by simp
  have "\<exists>h1. eventEmitters ?s1 c = Some h1 \<and> messageCounter h1 = Suc K"
    using step_registry[OF con, of ?ev c] hub_tracks[where evs=evs and c=c] assms(1-3)
    by (cases "eventEmitters s c") auto
  then obtain h1 where h1: "eventEmitters ?s1 c = Some h1" "messageCounter h1 = Suc K"
    by blast
  have w1: "written (conns ?s1 ! r) = [Init]"
    using assms(2,5) by (simp add: get_events_state new_conn_def split: option.splits)
  have 1: "filter (\<lambda>ch. ch \<noteq> Comment) (written (conns s' ! r)) =
           Init # frames (Suc K) (published c (takeWhile (\<lambda>ev. \<not> deletes c ev) later))"
    using subscriber_gets_publishes[OF con1 h1(1) sub, of later] h1(2) w1
    by (simp add: assms(4))
  have "s' = run (evs @ ?ev # later) init"
    by (simp add: assms(1,4) run_append)
  then have ar: "all_received s'" by (simp add: all_received_reachable)
  have "r < length (conns ?s1)"
    using consistentD(4)[OF con1 h1(1) sub] by simp
  then have "r < length (conns s')"
    using run_conns_length[of ?s1 later] by (simp add: assms(4))
  then have 2: "connected (conns s' ! r) \<longrightarrow> received (conns s' ! r) = written (conns s' ! r)"
    using ar by (simp add: all_received_def)
  show ?thesis using 1 2 by blast
qed

theorem late_subscriber_gets_later_publishes_only_witness:
  "length (published ''1'' (hub_events ''1''
      [Get_events (Some ''text/event-stream'') ''1'',
       Post_message ''1'' (JStr ''hi'') (JStr ''alice'') (Resolved (JNum 7, JStr ''t0''))])) = 1 \<and>
   length (conns (run
      [Get_events (Some ''text/event-stream'') ''1'',
       Post_message ''1'' (JStr ''hi'') (JStr ''alice'') (Resolved (JNum 7, JStr ''t0''))] init)) = 1 \<and>
   filter (\<lambda>ch. ch \<noteq> Comment) (written (conns (run
      [Get_events (Some ''text/event-stream'') ''1'',
       Interval_fires 1,
       Post_message ''1'' (JStr ''bye'') (JStr ''bob'') (Resolved (JNum 8, JStr ''t1'')),
       Delete_channel ''1'' True True,
       Get_events (Some ''text/event-stream'') ''1'',
       Post_message ''1'' (JStr ''late'') (JStr ''eve'') (Resolved (JNum 9, JStr ''t2''))]
      (run
      [Get_events (Some ''text/event-stream'') ''1'',
       Post_message ''1'' (JStr ''hi'') (JStr ''alice'') (Resolved (JNum 7, JStr ''t0''))] init))
      ! 1)) =
     [Init, Data \<lparr>m_channelId = ''1'', m_id = JNum 8, m_username = JStr ''bob'',
                    m_content = JStr ''bye'', m_created_at = JStr ''t1''\<rparr>, Id_line 2]"
proof -
  let ?evs = "[Get_events (Some ''text/event-stream'') ''1'',
       Post_message ''1'' (JStr ''hi'') (JStr ''alice'') (Resolved (JNum 7, JStr ''t0''))]"
  let ?later = "[Interval_fires 1,
       Post_message ''1'' (JStr ''bye'') (JStr ''bob'') (Resolved (JNum 8, JStr ''t1'')),
       Delete_channel ''1'' True True,
       Get_events (Some ''text/event-stream'') ''1'',
       Post_message ''1'' (JStr ''late'') (JStr ''eve'') (Resolved (JNum 9, JStr ''t2''))]"
  have k: "length (published ''1'' (hub_events ''1'' ?evs)) = 1"
    by (simp add: history_defs)
  have r: "length (conns (run ?evs init)) = 1"
    by (simp add: eval_defs)
  have ne: "''1'' \<noteq> ([] :: string)" by simp
  have p: "published ''1'' (takeWhile (\<lambda>ev. \<not> deletes ''1'' ev) ?later) =
      [\<lparr>m_channelId = ''1'', m_id = JNum 8, m_username = JStr ''bob'',
                    m_content = JStr ''bye'', m_created_at = JStr ''t1''\<rparr>]"
    by (simp add: history_defs)
  from late_subscriber_gets_later_publishes_only[OF refl ne k[symmetric] refl r[symmetric],
      where later="?later"]
  show ?thesis
    unfolding p using k r by simp
qed

lemma timers_running_step:
  assumes "consistent s" "timers_running s"
  shows "timers_running (step ev s)"
proof (cases ev)
  case (Post_channel name db)
  then show ?thesis using assms(2) by simp
next
  case (Delete_channel c' q1 q2)
  then show ?thesis using assms(2) by (simp add: delete_channel_state timers_running_def)
next
  case (Get_events accept c')
  then show ?thesis using assms(2)
    by (auto simp: get_events_state timers_running_def nth_append new_conn_def
        split: option.splits)
next
  case (Post_message c' content username db)
  show ?thesis
  proof (cases "eventEmitters s c'")
    case None
    then show ?thesis using Post_message assms(2)
      by (simp add: post_message_state split: answer.splits prod.splits)
  next
    case (Some h)
    then show ?thesis using Post_message assms(2)
      by (auto simp: post_message_state emit_broadcast_eq[OF assms(1) Some] timers_running_def
          split: answer.splits prod.splits)
  qed
next
  case (Interval_fires q)
  then show ?thesis using assms(2)
    by (auto simp: interval_callback_def res_write_def Let_def nth_list_update timers_running_def)
next
  case (Client_disconnects q)
  then show ?thesis using assms(2) by (auto simp: nth_list_update timers_running_def)
qed

lemma timers_running_run:
  "consistent s \<Longrightarrow> timers_running s \<Longrightarrow> timers_running (run evs s)"
  by (induction evs arbitrary: s) (simp_all add: consistent_step timers_running_step)

lemma timers_running_reachable: "timers_running (run evs init)"
  by (rule timers_running_run[OF consistent_init]) (simp add: timers_running_def init_def)

section \<open>Keepalive\<close>

text \<open>
  C9. In every reachable state each open stream has its timer running with the period
  10000 ms it was created with, whatever was published. When the timer of stream \<open>r\<close>
  fires, the one chunk written is the comment, which is neither a payload nor an id
  line; the registry, the emitters, the closure variables of every stream (the counters
  among them) and every other stream are as before.
\<close>

theorem keepalive_writes_comment_only:
  assumes "s = run evs init"
    and "r < length (conns s)"
    and "s' = step (Interval_fires r) s"
  shows "intervalId (conns s ! r) = Some 10000 \<and>
         written (conns s' ! r) = written (conns s ! r) @ [Comment] \<and>
         chunk_payload Comment = None \<and> chunk_id Comment = None \<and>
         eventEmitters s' = eventEmitters s \<and>
         emitter_objs s' = emitter_objs s \<and>
         length (conns s') = length (conns s) \<and>
         (\<forall>q < length (conns s).
            c_messageCounter (conns s' ! q) = c_messageCounter (conns s ! q) \<and>
            c_channelId (conns s' ! q) = c_channelId (conns s ! q) \<and>
            c_emitter (conns s' ! q) = c_emitter (conns s ! q) \<and>
            intervalId (conns s' ! q) = intervalId (conns s ! q) \<and>
            (q \<noteq> r \<longrightarrow> conns s' ! q = conns s ! q))"
proof -
  have t: "intervalId (conns s ! r) = Some 10000"
    using timers_running_reachable[of evs] assms(1,2) by (simp add: timers_running_def)
  then have s': "s' = res_write r Comment s"
    using assms(2,3) by (simp add: interval_callback_def)
  show ?thesis
    unfolding s' using t assms(2)
    by (auto simp: res_write_def Let_def nth_list_update)
qed

theorem keepalive_writes_comment_only_witness:
  "length (conns (run [Get_events (Some ''text/event-stream'') ''1'',
       Post_message ''1'' (JStr ''hi'') (JStr ''alice'') (Resolved (JNum 7, JStr ''t0''))] init)) = 1 \<and>
   written (conns (step (Interval_fires 0)
     (run [Get_events (Some ''text/event-stream'') ''1'',
       Post_message ''1'' (JStr ''hi'') (JStr ''alice'') (Resolved (JNum 7, JStr ''t0''))] init)) ! 0) =
     [Init, Data \<lparr>m_channelId = ''1'', m_id = JNum 7, m_username = JStr ''alice'',
                    m_content = JStr ''hi'', m_created_at = JStr ''t0''\<rparr>, Id_line 1, Comment] \<and>
   eventEmitters (step (Interval_fires 0)
     (run [Get_events (Some ''text/event-stream'') ''1'',
       Post_message ''1'' (JStr ''hi'') (JStr ''alice'') (Resolved (JNum 7, JStr ''t0''))] init)) ''1'' =
     Some \<lparr>emitter = 0, messageCounter = 2\<rparr>"
proof -
  let ?evs = "[Get_events (Some ''text/event-stream'') ''1'',
       Post_message ''1'' (JStr ''hi'') (JStr ''alice'') (Resolved (JNum 7, JStr ''t0''))]"
  have n: "length (conns (run ?evs init)) = 1" by (simp add: eval_defs)
  then have r: "0 < length (conns (run ?evs init))" by simp
  have w: "written (conns (run ?evs init) ! 0) =
     [Init, Data \<lparr>m_channelId = ''1'', m_id = JNum 7, m_username = JStr ''alice'',
                    m_content = JStr ''hi'', m_created_at = JStr ''t0''\<rparr>, Id_line 1]"
    by (simp add: eval_defs)
  have h: "eventEmitters (run ?evs init) ''1'' = Some \<lparr>emitter = 0, messageCounter = 2\<rparr>"
    by (simp add: eval_defs)
  from keepalive_writes_comment_only[OF refl r refl]
  have A: "written (conns (step (Interval_fires 0) (run ?evs init)) ! 0) =
          written (conns (run ?evs init) ! 0) @ [Comment]"
    and B: "eventEmitters (step (Interval_fires 0) (run ?evs init)) = eventEmitters (run ?evs init)"
    by blast+
  show ?thesis unfolding A B w h n by simp
qed

section \<open>Opening a second stream on a channel\<close>

text \<open>
  C10. When a stream is opened on a channel that has a hub, in a reachable state, the
  registry is left as it is (every entry, that of the channel included), no emitter is
  created, the new stream's closure holds the hub's emitter and the stored counter, and
  the stream is added last to that emitter's listeners. Whether or not the channel has a
  hub, opening a stream on it changes no other channel's entry.
\<close>

theorem second_stream_joins_existing_hub:
  assumes "s = run evs init"
    and "eventEmitters s c = Some h"
    and "c \<noteq> []"
    and "s' = snd (get_events (Some ''text/event-stream'') c s)"
  shows "eventEmitters s' = eventEmitters s \<and>
         length (emitter_objs s') = length (emitter_objs s) \<and>
         c_emitter (conns s' ! length (conns s)) = emitter h \<and>
         c_messageCounter (conns s' ! length (conns s)) = messageCounter h \<and>
         subscribers s' c = subscribers s c @ [length (conns s)] \<and>
         (\<forall>accept s0 c'. c' \<noteq> c \<longrightarrow>
            eventEmitters (snd (get_events accept c s0)) c' = eventEmitters s0 c')"
proof -
  have con: "consistent s" using assms(1) by (simp add: consistent_reachable)
  have "subscribers s' c = subscribers s c @ [length (conns s)]"
    using step_subscribers[OF con, of "Get_events (Some ''text/event-stream'') c" c] assms(3,4)
    by simp
  moreover have "\<forall>accept s0 c'. c' \<noteq> c \<longrightarrow>
            eventEmitters (snd (get_events accept c s0)) c' = eventEmitters s0 c'"
    by (simp add: get_events_state split: option.splits)
  ultimately show ?thesis
    using assms(2,3) by (simp add: assms(4) get_events_state new_conn_def)
qed

theorem second_stream_joins_existing_hub_witness:
  "eventEmitters (run [Get_events (Some ''text/event-stream'') ''1'',
       Post_message ''1'' (JStr ''hi'') (JStr ''alice'') (Resolved (JNum 7, JStr ''t0''))] init) ''1'' =
     Some \<lparr>emitter = 0, messageCounter = 2\<rparr> \<and>
   eventEmitters (snd (get_events (Some ''text/event-stream'') ''1''
     (run [Get_events (Some ''text/event-stream'') ''1'',
       Post_message ''1'' (JStr ''hi'') (JStr ''alice'') (Resolved (JNum 7, JStr ''t0''))] init))) ''1'' =
     Some \<lparr>emitter = 0, messageCounter = 2\<rparr> \<and>
   c_messageCounter (conns (snd (get_events (Some ''text/event-stream'') ''1''
     (run [Get_events (Some ''text/event-stream'') ''1'',
       Post_message ''1'' (JStr ''hi'') (JStr ''alice'') (Resolved (JNum 7, JStr ''t0''))] init))) ! 1) = 2 \<and>
   subscribers (snd (get_events (Some ''text/event-stream'') ''1''
     (run [Get_events (Some ''text/event-stream'') ''1'',
       Post_message ''1'' (JStr ''hi'') (JStr ''alice'') (Resolved (JNum 7, JStr ''t0''))] init))) ''1'' =
     [0, 1]"
proof -
  let ?evs = "[Get_events (Some ''text/event-stream'') ''1'',
       Post_message ''1'' (JStr ''hi'') (JStr ''alice'') (Resolved (JNum 7, JStr ''t0''))]"
  have h: "eventEmitters (run ?evs init) ''1'' = Some \<lparr>emitter = 0, messageCounter = 2\<rparr>"
    by (simp add: eval_defs)
  have ne: "''1'' \<noteq> ([] :: string)" by simp
  have n: "length (conns (run ?evs init)) = 1" by (simp add: eval_defs)
  have ls: "subscribers (run ?evs init) ''1'' = [0]" by (simp add: eval_defs)
  from second_stream_joins_existing_hub[OF refl h ne refl]
  show ?thesis unfolding n ls using h by simp
qed

section \<open>Posting a message with every field present\<close>

text \<open>
  C5. A post whose channel id, content and username are all truthy and whose insert
  resolves issues that one insert and then: with no hub for the channel, answers 404,
  broadcasts nothing and leaves the state as it is (the handler then runs into the 201
  of line 240, which throws because the response is out); with a hub, emits once on the
  hub's emitter with the payload built from the request and the stored row, and
  answers 201 \<open>{msg: "Chat message posted"}\<close>.
\<close>

theorem post_message_with_all_fields:
  assumes "c \<noteq> []" "truthy content" "truthy username"
    and "run_of = post_message c content username (Resolved (i, created_at)) s"
    and "d = \<lparr>m_channelId = c, m_id = i, m_username = username, m_content = content,
               m_created_at = created_at\<rparr>"
  shows "store_calls (fst run_of) = [Query INSERT_INTO_messages [content, JStr c, username]] \<and>
         (case eventEmitters s c of
            None \<Rightarrow>
              response (fst run_of) = Some (Respond 404 (Text ''Channel not found'')) \<and>
              broadcasts (fst run_of) = [] \<and>
              snd run_of = s
          | Some h \<Rightarrow>
              response (fst run_of) = Some (Respond 201 (Msg ''Chat message posted'')) \<and>
              broadcasts (fst run_of) = [Emit (emitter h) d] \<and>
              snd run_of = emit_broadcast (emitter h) d s \<and>
              filter is_Respond (fst run_of) = [Respond 201 (Msg ''Chat message posted'')])"
  using assms(1-3)
  by (simp add: assms(4,5) post_message_def send_def headers_sent_def response_def
      store_calls_def broadcasts_def Let_def split: option.splits)

theorem post_message_with_all_fields_witness:
  "truthy (JStr ''hi'') \<and> truthy (JStr ''alice'') \<and>
   response (fst (post_message ''1'' (JStr ''hi'') (JStr ''alice'')
       (Resolved (JNum 7, JStr ''t0'')) init)) =
     Some (Respond 404 (Text ''Channel not found'')) \<and>
   store_calls (fst (post_message ''1'' (JStr ''hi'') (JStr ''alice'')
       (Resolved (JNum 7, JStr ''t0'')) init)) =
     [Query INSERT_INTO_messages [JStr ''hi'', JStr ''1'', JStr ''alice'']] \<and>
   response (fst (post_message ''1'' (JStr ''hi'') (JStr ''alice'')
       (Resolved (JNum 7, JStr ''t0''))
       (run [Get_events (Some ''text/event-stream'') ''1''] init))) =
     Some (Respond 201 (Msg ''Chat message posted'')) \<and>
   broadcasts (fst (post_message ''1'' (JStr ''hi'') (JStr ''alice'')
       (Resolved (JNum 7, JStr ''t0''))
       (run [Get_events (Some ''text/event-stream'') ''1''] init))) =
     [Emit 0 \<lparr>m_channelId = ''1'', m_id = JNum 7, m_username = JStr ''alice'',
                    m_content = JStr ''hi'', m_created_at = JStr ''t0''\<rparr>]"
proof -
  have ne: "''1'' \<noteq> ([] :: string)" and t1: "truthy (JStr ''hi'')" and t2: "truthy (JStr ''alice'')"
    by simp_all
  have a: "eventEmitters init ''1'' = None" by (simp add: init_def)
  have b: "eventEmitters (run [Get_events (Some ''text/event-stream'') ''1''] init) ''1'' =
      Some \<lparr>emitter = 0, messageCounter = 1\<rparr>"
    by (simp add: eval_defs)
  from post_message_with_all_fields[OF ne t1 t2 refl refl, of "JNum 7" "JStr ''t0''" init]
    post_message_with_all_fields[OF ne t1 t2 refl refl, of "JNum 7" "JStr ''t0''"
      "run [Get_events (Some ''text/event-stream'') ''1''] init"]
  show ?thesis unfolding a b using t1 t2 by simp
qed

section \<open>Closing a stream\<close>

text \<open>
  C3. The program at the triggers the claim names. A client opens a stream on channel
  \<open>"1"\<close> and goes away: its timer is still running and its listener is still a
  subscriber of the hub. The channel is deleted instead: the entry is gone, the timer is
  still running and the listener is still on the emitter. And had \<open>"close"\<close> been
  emitted on the emitter, its listener would have removed no broadcast listener.
\<close>

theorem closing_triggers_release_nothing:
  "connected (conns (run [Get_events (Some ''text/event-stream'') ''1'',
                          Client_disconnects 0] init) ! 0) = False \<and>
   intervalId (conns (run [Get_events (Some ''text/event-stream'') ''1'',
                           Client_disconnects 0] init) ! 0) = Some 10000 \<and>
   subscribers (run [Get_events (Some ''text/event-stream'') ''1'',
                     Client_disconnects 0] init) ''1'' = [0] \<and>
   eventEmitters (run [Get_events (Some ''text/event-stream'') ''1'',
                       Delete_channel ''1'' True True] init) ''1'' = None \<and>
   intervalId (conns (run [Get_events (Some ''text/event-stream'') ''1'',
                           Delete_channel ''1'' True True] init) ! 0) = Some 10000 \<and>
   on_broadcast (emitter_objs (run [Get_events (Some ''text/event-stream'') ''1'',
                                    Delete_channel ''1'' True True] init) ! 0) = [0] \<and>
   on_broadcast (emitter_objs (emit_close 0
      (run [Get_events (Some ''text/event-stream'') ''1''] init)) ! 0) = [0]"
  by (simp add: eval_defs emit_close_def close_listener_def)

section \<open>Requests with a missing field\<close>

text \<open>
  C4. The program at a post without \<open>content\<close> to a channel with one subscriber, the
  insert resolving: the 400 is sent, then the insert is issued, the broadcast is emitted
  and reaches the subscriber, and the handler ends in the exception of the second
  response. Likewise \<open>POST /channel\<close> without \<open>name\<close> sends the 400 and then
  issues its insert.
\<close>

theorem missing_field_still_inserts_and_broadcasts:
  "fst (post_message ''1'' JUndefined (JStr ''bob'') (Resolved (JNum 7, JStr ''t0''))
      (run [Get_events (Some ''text/event-stream'') ''1''] init)) =
     [Respond 400 (Msg ''Missing required argument (channelId, content or username)''),
      Query INSERT_INTO_messages [JUndefined, JStr ''1'', JStr ''bob''],
      Emit 0 \<lparr>m_channelId = ''1'', m_id = JNum 7, m_username = JStr ''bob'',
               m_content = JUndefined, m_created_at = JStr ''t0''\<rparr>,
      Throws ERR_HTTP_HEADERS_SENT] \<and>
   written (conns (snd (post_message ''1'' JUndefined (JStr ''bob'')
      (Resolved (JNum 7, JStr ''t0''))
      (run [Get_events (Some ''text/event-stream'') ''1''] init))) ! 0) =
     [Init,
      Data \<lparr>m_channelId = ''1'', m_id = JNum 7, m_username = JStr ''bob'',
             m_content = JUndefined, m_created_at = JStr ''t0''\<rparr>,
      Id_line 1] \<and>
   post_channel JUndefined (Resolved (JNum 1)) =
     [Respond 400 (Msg ''Missing required argument name''),
      Query INSERT_INTO_channels [JUndefined],
      Throws ERR_HTTP_HEADERS_SENT]"
  by (simp add: eval_defs post_message_def post_channel_def catch_500_def send_def
      headers_sent_def)

text \<open>In the terms of the claim: the answer is the 400, and yet one insert and one emit.\<close>

theorem missing_field_still_inserts_and_broadcasts_witness:
  "response (fst (post_message ''1'' JUndefined (JStr ''bob'') (Resolved (JNum 7, JStr ''t0''))
      (run [Get_events (Some ''text/event-stream'') ''1''] init))) =
     Some (Respond 400 (Msg ''Missing required argument (channelId, content or username)'')) \<and>
   store_calls (fst (post_message ''1'' JUndefined (JStr ''bob'') (Resolved (JNum 7, JStr ''t0''))
      (run [Get_events (Some ''text/event-stream'') ''1''] init))) =
     [Query INSERT_INTO_messages [JUndefined, JStr ''1'', JStr ''bob'']] \<and>
   broadcasts (fst (post_message ''1'' JUndefined (JStr ''bob'') (Resolved (JNum 7, JStr ''t0''))
      (run [Get_events (Some ''text/event-stream'') ''1''] init))) =
     [Emit 0 \<lparr>m_channelId = ''1'', m_id = JNum 7, m_username = JStr ''bob'',
               m_content = JUndefined, m_created_at = JStr ''t0''\<rparr>] \<and>
   store_calls (post_channel JUndefined (Resolved (JNum 1))) =
     [Query INSERT_INTO_channels [JUndefined]]"
proof -
  have *: "fst (post_message ''1'' JUndefined (JStr ''bob'') (Resolved (JNum 7, JStr ''t0''))
      (run [Get_events (Some ''text/event-stream'') ''1''] init)) =
     [Respond 400 (Msg ''Missing required argument (channelId, content or username)''),
      Query INSERT_INTO_messages [JUndefined, JStr ''1'', JStr ''bob''],
      Emit 0 \<lparr>m_channelId = ''1'', m_id = JNum 7, m_username = JStr ''bob'',
               m_content = JUndefined, m_created_at = JStr ''t0''\<rparr>,
      Throws ERR_HTTP_HEADERS_SENT]"
    and **: "post_channel JUndefined (Resolved (JNum 1)) =
     [Respond 400 (Msg ''Missing required argument name''),
      Query INSERT_INTO_channels [JUndefined],
      Throws ERR_HTTP_HEADERS_SENT]"
    using missing_field_still_inserts_and_broadcasts by blast+
  show ?thesis unfolding * ** by (simp add: response_def store_calls_def broadcasts_def)
qed

section \<open>A delivery that fails\<close>

text \<open>
  C6. The program at two streams on channel \<open>"1"\<close>, the client of the first gone, and
  a message posted: the first stream receives nothing of it, and it is still a
  subscriber afterwards, where the claim has it removed.
\<close>

theorem failed_subscriber_not_removed:
  "\<not> connected (conns (run [Get_events (Some ''text/event-stream'') ''1'',
                             Get_events (Some ''text/event-stream'') ''1'',
                             Client_disconnects 0] init) ! 0) \<and>
   received (conns (snd (post_message ''1'' (JStr ''hi'') (JStr ''alice'')
       (Resolved (JNum 7, JStr ''t0''))
       (run [Get_events (Some ''text/event-stream'') ''1'',
             Get_events (Some ''text/event-stream'') ''1'',
             Client_disconnects 0] init))) ! 0) = [Init] \<and>
   subscribers (snd (post_message ''1'' (JStr ''hi'') (JStr ''alice'')
       (Resolved (JNum 7, JStr ''t0''))
       (run [Get_events (Some ''text/event-stream'') ''1'',
             Get_events (Some ''text/event-stream'') ''1'',
             Client_disconnects 0] init))) ''1'' = [0, 1]"
  by (simp add: eval_defs)

text \<open>
  The same run in full: the publisher is answered 201, the second stream receives the
  pair, and the first stream is among the subscribers still.
\<close>

theorem failed_subscriber_not_removed_witness:
  "response (fst (post_message ''1'' (JStr ''hi'') (JStr ''alice'')
       (Resolved (JNum 7, JStr ''t0''))
       (run [Get_events (Some ''text/event-stream'') ''1'',
             Get_events (Some ''text/event-stream'') ''1'',
             Client_disconnects 0] init))) =
     Some (Respond 201 (Msg ''Chat message posted'')) \<and>
   received (conns (snd (post_message ''1'' (JStr ''hi'') (JStr ''alice'')
       (Resolved (JNum 7, JStr ''t0''))
       (run [Get_events (Some ''text/event-stream'') ''1'',
             Get_events (Some ''text/event-stream'') ''1'',
             Client_disconnects 0] init))) ! 1) =
     [Init, Data \<lparr>m_channelId = ''1'', m_id = JNum 7, m_username = JStr ''alice'',
                    m_content = JStr ''hi'', m_created_at = JStr ''t0''\<rparr>, Id_line 1] \<and>
   received (conns (snd (post_message ''1'' (JStr ''hi'') (JStr ''alice'')
       (Resolved (JNum 7, JStr ''t0''))
       (run [Get_events (Some ''text/event-stream'') ''1'',
             Get_events (Some ''text/event-stream'') ''1'',
             Client_disconnects 0] init))) ! 0) = [Init] \<and>
   subscribers (snd (post_message ''1'' (JStr ''hi'') (JStr ''alice'')
       (Resolved (JNum 7, JStr ''t0''))
       (run [Get_events (Some ''text/event-stream'') ''1'',
             Get_events (Some ''text/event-stream'') ''1'',
             Client_disconnects 0] init))) ''1'' = [0, 1]"
proof -
  let ?s = "run [Get_events (Some ''text/event-stream'') ''1'',
                 Get_events (Some ''text/event-stream'') ''1'',
                 Client_disconnects 0] init"
  let ?p = "post_message ''1'' (JStr ''hi'') (JStr ''alice'') (Resolved (JNum 7, JStr ''t0'')) ?s"
  have r: "response (fst ?p) = Some (Respond 201 (Msg ''Chat message posted''))"
    by (simp add: post_message_def send_def headers_sent_def response_def eval_defs)
  have o: "received (conns (snd ?p) ! 1) =
     [Init, Data \<lparr>m_channelId = ''1'', m_id = JNum 7, m_username = JStr ''alice'',
                    m_content = JStr ''hi'', m_created_at = JStr ''t0''\<rparr>, Id_line 1]"
    by (simp add: eval_defs)
  have "received (conns (snd ?p) ! 0) = [Init]" and "subscribers (snd ?p) ''1'' = [0, 1]"
    using failed_subscriber_not_removed by blast+
  then show ?thesis using r o by blast
qed

text \<open>
  The rest of what is said of a failing delivery holds of the program in every reachable
  state. Let \<open>q\<close> be a subscriber of the channel's hub whose client has gone, so that a
  publish delivers nothing to it. The publish still writes the pair on the stream of
  every other subscriber, every other subscriber that is connected receives it, and the
  publisher is answered the same whatever the state of the streams.
\<close>

lemma failed_delivery_is_isolated:
  assumes "s = run evs init"
    and "eventEmitters s c = Some h"
    and "q \<in> set (subscribers s c)"
    and "\<not> connected (conns s ! q)"
    and "run_of = post_message c content username (Resolved (i, created_at)) s"
    and "d = \<lparr>m_channelId = c, m_id = i, m_username = username, m_content = content,
               m_created_at = created_at\<rparr>"
  shows "received (conns (snd run_of) ! q) = received (conns s ! q) \<and>
         (\<forall>r \<in> set (subscribers s c). r \<noteq> q \<longrightarrow>
            written (conns (snd run_of) ! r) =
              written (conns s ! r) @ [Data d, Id_line (messageCounter h)] \<and>
            (connected (conns s ! r) \<longrightarrow>
               received (conns (snd run_of) ! r) =
                 received (conns s ! r) @ [Data d, Id_line (messageCounter h)])) \<and>
         (\<forall>cs. fst run_of =
            fst (post_message c content username (Resolved (i, created_at))
                  (s\<lparr>conns := cs\<rparr>)))"
proof -
  have con: "consistent s" using assms(1) by (simp add: consistent_reachable)
  have s': "snd run_of = emit_broadcast (emitter h) d s"
    using assms(2) by (simp add: assms(5,6) post_message_state)
  note D = consistentD(4)[OF con assms(2)]
  have 1: "received (conns (snd run_of) ! q) = received (conns s ! q)"
    unfolding s' emit_broadcast_eq[OF con assms(2)]
    using D[OF assms(3)] assms(3,4) by (simp add: deliver_def)
  have 2: "\<forall>r \<in> set (subscribers s c). r \<noteq> q \<longrightarrow>
            written (conns (snd run_of) ! r) =
              written (conns s ! r) @ [Data d, Id_line (messageCounter h)] \<and>
            (connected (conns s ! r) \<longrightarrow>
               received (conns (snd run_of) ! r) =
                 received (conns s ! r) @ [Data d, Id_line (messageCounter h)])"
    unfolding s' emit_broadcast_eq[OF con assms(2)]
    using D by (auto simp: deliver_def)
  have 3: "\<forall>cs. fst run_of =
            fst (post_message c content username (Resolved (i, created_at))
                  (s\<lparr>conns := cs\<rparr>))"
    by (simp add: assms(5) post_message_def Let_def split: sum.splits option.splits)
  show ?thesis using 1 2 3 by blast
qed

end
